theory Spec2Isabelle
  imports Complex_Main "HOL-Library.Multiset" "HOL-Library.AList"
begin

section \<open>PickPass: scoring rules (logic\_pickpass.py)\<close>

text \<open>
  Cards, chips and pot sizes are Python integers, hence \<open>int\<close>.
  \<open>calculate_score\<close> sorts the cards and walks the sorted list once with the two
  loop variables \<open>score\<close> and \<open>previous\<close> (initially \<open>0\<close> and \<open>-1\<close>).
\<close>

fun score_walk :: "int \<Rightarrow> int \<Rightarrow> int list \<Rightarrow> int" where
  "score_walk previous score [] = score"
| "score_walk previous score (c # rest) =
     score_walk c (if c \<noteq> previous + 1 then score + c else score) rest"

definition calculate_score :: "int list \<Rightarrow> int" where
  "calculate_score cards =
     (if cards = [] then 0 else score_walk (- 1) 0 (sort cards))"

text \<open>
  The scoring rule in the words of the specification: sort ascending; the first card has
  no predecessor; every later card is paired with its predecessor and counts only when
  it does not immediately follow it.
\<close>

definition score_spec :: "int list \<Rightarrow> int" where
  "score_spec cards =
     (case sort cards of
        [] \<Rightarrow> 0
      | first # rest \<Rightarrow>
          first + sum_list (map snd (filter (\<lambda>(p, c). c \<noteq> p + 1) (zip (first # rest) rest))))"


text \<open>
  \<open>predict_opponent_action\<close> returns one of the float literals 1.0, 0.8, 0.9, 0.6 and
  0.1; they are written as the rationals they denote. The test
  \<open>projected_pot > card / 2\<close> is Python's true division, exact for integers of card
  size, and is written over the rationals as well.
\<close>

record player =
  name :: string
  cards :: "int list"
  chips :: int
  is_human :: bool

definition predict_opponent_action :: "player \<Rightarrow> int \<Rightarrow> int \<Rightarrow> rat" where
  "predict_opponent_action opponent_dict crd projected_pot =
     (if chips opponent_dict = 0 then 1
      else
        let opp_score = calculate_score (cards opponent_dict);
            opp_new_score = calculate_score (cards opponent_dict @ [crd])
        in
          if opp_new_score < opp_score then
            (if chips opponent_dict < 3 then 1 else 8 / 10)
          else if chips opponent_dict \<le> 2 \<and> projected_pot \<ge> 3 then 9 / 10
          else if of_int projected_pot > (of_int crd / 2 :: rat) then 6 / 10
          else 1 / 10)"

section \<open>PickPass: the engine (class PickPassGame)\<close>

datatype py_error = IndexError | KeyError | TypeError | AttributeError

record leader_entry =
  entry_name :: string
  card_total :: int
  entry_chips :: int
  final_score :: int
  entry_is_human :: bool

record pickpass =
  players :: "player list"
  deck :: "int list"
  pot :: int
  current_card :: int
  current_player_idx :: nat
  game_over :: bool
  leaderboard :: "leader_entry list"

text \<open>
  The constructor. The shuffled deck and the random starting seat are the two random
  draws of \<open>__init__\<close>; they are parameters here. \<open>needed = 5 - len(players)\<close> bots are
  added when it is positive; it is at most 5, the number of bot names, so the fallback
  name \<open>Bot-i\<close> is never used. \<open>self.deck.pop(0)\<close> raises IndexError on an empty list.
\<close>

definition new_player :: "bool \<Rightarrow> string \<Rightarrow> player" where
  "new_player human n = \<lparr>name = n, cards = [], chips = 11, is_human = human\<rparr>"

definition bot_names :: "string list" where
  "bot_names = [''Vector'', ''Matrix'', ''Tensor'', ''Scalar'', ''Logit'']"

definition init_players :: "string list \<Rightarrow> player list" where
  "init_players human_players =
     map (new_player True) human_players
     @ map (new_player False) (take (5 - length human_players) bot_names)"

definition init_game :: "string list \<Rightarrow> int list \<Rightarrow> nat \<Rightarrow> py_error + pickpass" where
  "init_game human_players shuffled start =
     (case drop 9 shuffled of
        [] \<Rightarrow> Inl IndexError
      | c # rest \<Rightarrow>
          Inr \<lparr>players = init_players human_players, deck = rest, pot = 0,
               current_card = c, current_player_idx = start, game_over = False,
               leaderboard = []\<rparr>)"

text \<open>The snapshot that \<open>get_state\<close> builds for the front end.\<close>

record pickpass_state =
  st_pot :: int
  st_current_card :: int
  st_current_player :: nat
  st_current_player_name :: string
  st_deck_count :: nat
  st_game_over :: bool
  st_players :: "player list"
  st_leaderboard :: "leader_entry list"

definition get_state :: "pickpass \<Rightarrow> py_error + pickpass_state" where
  "get_state g =
     (if current_player_idx g < length (players g) then
        Inr \<lparr>st_pot = pot g, st_current_card = current_card g,
             st_current_player = current_player_idx g,
             st_current_player_name = name (players g ! current_player_idx g),
             st_deck_count = length (deck g), st_game_over = game_over g,
             st_players = players g, st_leaderboard = leaderboard g\<rparr>
      else Inl IndexError)"

text \<open>
  \<open>end_game\<close>: one leaderboard entry per player, then \<open>list.sort\<close> by \<open>final_score\<close>.
  Python's sort is stable, and so is \<open>sort_key\<close>.
\<close>

definition entry_of :: "player \<Rightarrow> leader_entry" where
  "entry_of p =
     (let total = calculate_score (cards p);
          final = total - chips p
      in \<lparr>entry_name = name p, card_total = total, entry_chips = chips p,
           final_score = final, entry_is_human = is_human p\<rparr>)"

definition end_game :: "pickpass \<Rightarrow> pickpass" where
  "end_game g =
     g\<lparr>game_over := True,
       leaderboard := sort_key final_score (map entry_of (players g))\<rparr>"

text \<open>
  The body of the \<open>'take'\<close> branch of \<open>play_turn\<close>: the current player gets the face-up
  card and the pot, the turn moves on, and either the game ends (empty deck) or the next
  card is revealed.
\<close>

definition take_branch :: "pickpass \<Rightarrow> pickpass" where
  "take_branch g =
     (let i = current_player_idx g;
          current_p = players g ! i;
          current_p' = current_p\<lparr>cards := cards current_p @ [current_card g],
                                 chips := chips current_p + pot g\<rparr>;
          g1 = g\<lparr>players := (players g)[i := current_p'], pot := 0,
                 current_player_idx := (i + 1) mod length (players g)\<rparr>
      in case deck g1 of
           [] \<Rightarrow> end_game g1
         | c # rest \<Rightarrow> g1\<lparr>current_card := c, deck := rest\<rparr>)"

text \<open>
  \<open>player_name_check\<close> is an optional string (default \<open>None\<close>). The guard
  \<open>if player_name_check and ...\<close> tests its truthiness: \<open>None\<close> and the empty string
  are both false.
\<close>

definition truthy :: "string option \<Rightarrow> bool" where
  "truthy player_name_check =
     (case player_name_check of None \<Rightarrow> False | Some s \<Rightarrow> s \<noteq> [])"

text \<open>
  \<open>play_turn\<close> as a transition of the engine. \<open>self.players[self.current_player_idx]\<close>
  raises IndexError out of range. The forced take \<open>self.play_turn('take')\<close> is a call
  with no name check on the same, unchanged engine, so it runs the take branch.
\<close>

definition play_turn :: "string \<Rightarrow> string option \<Rightarrow> pickpass \<Rightarrow> py_error + pickpass" where
  "play_turn action player_name_check g =
     (if \<not> current_player_idx g < length (players g) then Inl IndexError
      else
        let i = current_player_idx g;
            current_p = players g ! i
        in
          if truthy player_name_check \<and> Some (name current_p) \<noteq> player_name_check then Inr g
          else if action = ''take'' then Inr (take_branch g)
          else if action = ''pass'' then
            (if chips current_p > 0 then
               Inr (g\<lparr>players := (players g)[i := current_p\<lparr>chips := chips current_p - 1\<rparr>],
                      pot := pot g + 1,
                      current_player_idx := (i + 1) mod length (players g)\<rparr>)
             else Inr (take_branch g))
          else Inr g)"

text \<open>What \<open>play_turn\<close> returns to its caller: the snapshot of the engine afterwards.\<close>

definition play_turn_returns ::
  "string \<Rightarrow> string option \<Rightarrow> pickpass \<Rightarrow> py_error + pickpass_state" where
  "play_turn_returns action player_name_check g =
     (case play_turn action player_name_check g of
        Inl e \<Rightarrow> Inl e
      | Inr g' \<Rightarrow> get_state g')"

text \<open>A game: the constructor followed by a sequence of \<open>play_turn\<close> calls.\<close>

fun run_turns :: "(string \<times> string option) list \<Rightarrow> pickpass \<Rightarrow> py_error + pickpass" where
  "run_turns [] g = Inr g"
| "run_turns ((action, who) # rest) g =
     (case play_turn action who g of
        Inl e \<Rightarrow> Inl e
      | Inr g' \<Rightarrow> run_turns rest g')"

definition total_chips :: "pickpass \<Rightarrow> int" where
  "total_chips g = sum_list (map chips (players g)) + pot g"

section \<open>BidWiser: round payoff and the SmartBot (logic\_bidwiser.py)\<close>

definition resolve_round_logic :: "int \<Rightarrow> int \<Rightarrow> int \<Rightarrow> int \<times> int \<times> bool" where
  "resolve_round_logic p1_card p2_card current_pot =
     (if p1_card > p2_card then (current_pot, 0, False)
      else if p2_card > p1_card then (0, current_pot, False)
      else (0, 0, True))"

text \<open>
  Scores start as the integer 0 and become fractional only through the final split
  \<open>pot_val / 2.0\<close>; they and the bot's utilities are rationals here. The bot's running
  minimum and maximum start at \<open>float('inf')\<close> and \<open>-float('inf')\<close>.
\<close>

datatype ext = MinusInf | Fin rat | PlusInf

fun ext_less :: "ext \<Rightarrow> ext \<Rightarrow> bool" where
  "ext_less MinusInf MinusInf = False"
| "ext_less MinusInf _ = True"
| "ext_less (Fin a) (Fin b) = (a < b)"
| "ext_less (Fin a) PlusInf = True"
| "ext_less _ _ = False"

text \<open>
  The two random draws of the bot: the index \<open>random.choice\<close> picks and the value of the
  \<open>k\<close>-th call of \<open>random.uniform(-0.1, 0.1)\<close>.
\<close>

record rand =
  choice_idx :: nat
  jitter :: "nat \<Rightarrow> rat"

text \<open>\<open>total_outcome\<close> of the inner loop of \<open>minimax_move\<close>, for the cards \<open>b\<close> and \<open>p\<close>.\<close>

definition total_outcome ::
  "int list \<Rightarrow> int list \<Rightarrow> int \<Rightarrow> int list \<Rightarrow> rat \<Rightarrow> rat \<Rightarrow> int \<Rightarrow> int \<Rightarrow> rat" where
  "total_outcome bot_hand player_hand current_pot remaining_prizes bot_score player_score b p =
     (case resolve_round_logic b p current_pot of
        (b_won, p_won, is_tie) \<Rightarrow>
          let future_diff =
                (if remaining_prizes \<noteq> [] then
                   sum_list (filter (\<lambda>x. x \<noteq> b) bot_hand)
                   - sum_list (filter (\<lambda>x. x \<noteq> p) player_hand)
                 else 0);
              current_diff =
                (if is_tie \<and> remaining_prizes = [] then 0 else b_won - p_won)
          in (bot_score - player_score) + of_int current_diff + of_int future_diff)"

definition min_utility ::
  "int list \<Rightarrow> int list \<Rightarrow> int \<Rightarrow> int list \<Rightarrow> rat \<Rightarrow> rat \<Rightarrow> int \<Rightarrow> ext" where
  "min_utility bot_hand player_hand current_pot remaining_prizes bot_score player_score b =
     fold (\<lambda>p m.
             let t = Fin (total_outcome bot_hand player_hand current_pot remaining_prizes
                            bot_score player_score b p)
             in if ext_less t m then t else m)
          player_hand PlusInf"

text \<open>The outer loop: the pair \<open>(max_min_utility, best_options)\<close> over the candidates.\<close>

definition best_options ::
  "int list \<Rightarrow> int list \<Rightarrow> int \<Rightarrow> int list \<Rightarrow> rat \<Rightarrow> rat \<Rightarrow> int list" where
  "best_options bot_hand player_hand current_pot remaining_prizes bot_score player_score =
     snd (fold (\<lambda>b (max_min_utility, options).
                  let m = min_utility bot_hand player_hand current_pot remaining_prizes
                            bot_score player_score b
                  in if ext_less max_min_utility m then (m, [b])
                     else if m = max_min_utility then (max_min_utility, options @ [b])
                     else (max_min_utility, options))
               (rev (sort bot_hand)) (MinusInf, []))"

text \<open>
  \<open>minimax_move\<close>. \<open>bot_hand[0]\<close> raises IndexError on an empty hand, and so does
  \<open>random.choice\<close> on an empty list. \<open>depth_limit\<close> is assigned and never read.
\<close>

definition minimax_move ::
  "rand \<Rightarrow> int list \<Rightarrow> int list \<Rightarrow> int \<Rightarrow> int list \<Rightarrow> rat \<Rightarrow> rat \<Rightarrow> py_error + int" where
  "minimax_move r bot_hand player_hand current_pot remaining_prizes bot_score player_score =
     (case bot_hand of
        [] \<Rightarrow> Inl IndexError
      | best_card # _ \<Rightarrow>
          let depth_limit = (if length bot_hand \<le> 4 then 99 else 1 :: nat);
              options = best_options bot_hand player_hand current_pot remaining_prizes
                          bot_score player_score
          in if options = [] then Inl IndexError
             else Inr (options ! (choice_idx r mod length options)))"

text \<open>
  \<open>heuristic_move\<close>. The weight of a reply depends on the reply, the opponent's hand and
  the pot only, so the dictionary \<open>weights\<close> is the function \<open>weight\<close>. The float
  arithmetic of the expected value is done over the rationals: rounding is not modelled.
\<close>

definition weight :: "int list \<Rightarrow> int \<Rightarrow> int \<Rightarrow> rat" where
  "weight player_hand current_pot c =
     (let effective_val = min current_pot 15 in
      if current_pot > 10 then
        (let w = (if c \<ge> Max (set player_hand) - 1 then 1 + 3 else 1)
         in if c < 5 then w * (1 / 10) else w)
      else (if \<bar>c - effective_val\<bar> \<le> 1 then 1 + 2 else 1))"

definition expected_value :: "int list \<Rightarrow> int \<Rightarrow> int \<Rightarrow> rat" where
  "expected_value player_hand current_pot my_card =
     (let total_w = sum_list (map (weight player_hand current_pot) player_hand) in
      sum_list
        (map (\<lambda>opp_card.
                let prob = weight player_hand current_pot opp_card / total_w in
                case resolve_round_logic my_card opp_card current_pot of
                  (b_pts, p_pts, is_tie) \<Rightarrow>
                    let cost = of_int my_card;
                        u = (if is_tie then - (cost * (9 / 10))
                             else of_int (b_pts - p_pts) - cost * (8 / 10))
                    in u * prob)
             player_hand))"

definition heuristic_move :: "rand \<Rightarrow> int list \<Rightarrow> int list \<Rightarrow> int \<Rightarrow> py_error + int" where
  "heuristic_move r bot_hand player_hand current_pot =
     (case bot_hand of
        [] \<Rightarrow> Inl IndexError
      | first # _ \<Rightarrow>
          Inr (snd (fold (\<lambda>(k, my_card) (best_ev, best_card).
                            let ev = Fin (expected_value player_hand current_pot my_card
                                          + jitter r k)
                            in if ext_less best_ev ev then (ev, my_card)
                               else (best_ev, best_card))
                         (zip [0..<length bot_hand] bot_hand) (MinusInf, first))))"

definition decide_move ::
  "rand \<Rightarrow> int list \<Rightarrow> int list \<Rightarrow> int \<Rightarrow> int list \<Rightarrow> rat \<Rightarrow> rat \<Rightarrow> py_error + int" where
  "decide_move r bot_hand player_hand current_pot_value remaining_prizes bot_score player_score =
     (if length bot_hand \<le> 6 then
        minimax_move r bot_hand player_hand current_pot_value remaining_prizes
          bot_score player_score
      else heuristic_move r bot_hand player_hand current_pot_value)"

text \<open>
  The bot's memory: a dictionary with the keys 1..13, kept as an association list.
  \<open>self.opponent_history[prize_card]\<close> raises KeyError for any other key.
\<close>

record smartbot =
  bot_name :: string
  opponent_history :: "(int \<times> int list) list"

definition new_smartbot :: smartbot where
  "new_smartbot = \<lparr>bot_name = ''DeepGoof'', opponent_history = map (\<lambda>i. (i, [])) [1..13]\<rparr>"

definition record_move :: "int \<Rightarrow> int \<Rightarrow> smartbot \<Rightarrow> py_error + smartbot" where
  "record_move prize_card opponent_move b =
     (case map_of (opponent_history b) prize_card of
        None \<Rightarrow> Inl KeyError
      | Some moves \<Rightarrow>
          Inr (b\<lparr>opponent_history :=
                   AList.update prize_card (moves @ [opponent_move]) (opponent_history b)\<rparr>))"

section \<open>BidWiser: the engine (class BidWiserGame)\<close>

record round_entry =
  prize :: int
  p1_card :: int
  p2_card :: int
  result :: string

record bidwiser =
  prizes :: "int list"
  p1_name :: string
  p1_hand :: "int list"
  p1_score :: rat
  p1_move :: "int option"
  p2_name :: string
  p2_is_bot :: bool
  bot :: "smartbot option"
  p2_hand :: "int list"
  p2_score :: rat
  p2_move :: "int option"
  carry_over_pot :: int
  round_history :: "round_entry list"
  current_prize :: int
  bw_game_over :: bool

text \<open>
  The constructor; the shuffled prize list is a parameter. \<open>human_players[0]\<close> and
  \<open>self.prizes.pop(0)\<close> raise IndexError on an empty list.
\<close>

definition init_bidwiser :: "string list \<Rightarrow> int list \<Rightarrow> py_error + bidwiser" where
  "init_bidwiser human_players shuffled =
     (case human_players of
        [] \<Rightarrow> Inl IndexError
      | host # others \<Rightarrow>
          (case shuffled of
             [] \<Rightarrow> Inl IndexError
           | first_prize # rest \<Rightarrow>
               Inr \<lparr>prizes = rest, p1_name = host, p1_hand = [1..13], p1_score = 0,
                    p1_move = None,
                    p2_name = (case others of [] \<Rightarrow> ''DeepGoof (Bot)'' | n # _ \<Rightarrow> n),
                    p2_is_bot = (others = []),
                    bot = (case others of [] \<Rightarrow> Some new_smartbot | _ # _ \<Rightarrow> None),
                    p2_hand = [1..13], p2_score = 0, p2_move = None,
                    carry_over_pot = 0, round_history = [],
                    current_prize = first_prize, bw_game_over = False\<rparr>))"

text \<open>
  \<open>resolve_round\<close>. With a move missing, \<open>resolve_round_logic(None, ...)\<close> compares
  \<open>None\<close> with an integer and raises TypeError. \<open>hand.remove(card)\<close> removes the first
  occurrence, guarded by \<open>card in hand\<close>, which is \<open>remove1\<close>.
\<close>

definition resolve_round :: "bidwiser \<Rightarrow> py_error + bidwiser" where
  "resolve_round g =
     (case (p1_move g, p2_move g) of
        (Some c1, Some c2) \<Rightarrow>
          let pot_val = current_prize g + carry_over_pot g;
              g1 = g\<lparr>p1_hand := remove1 c1 (p1_hand g), p2_hand := remove1 c2 (p2_hand g)\<rparr>;
              (g2, label) =
                (case resolve_round_logic c1 c2 pot_val of
                   (p1_pts, p2_pts, is_tie) \<Rightarrow>
                     if \<not> is_tie then
                       (if p1_pts > 0 then
                          (g1\<lparr>p1_score := p1_score g1 + of_int p1_pts, carry_over_pot := 0\<rparr>,
                           p1_name g1 @ '' Wins'')
                        else
                          (g1\<lparr>p2_score := p2_score g1 + of_int p2_pts, carry_over_pot := 0\<rparr>,
                           p2_name g1 @ '' Wins''))
                     else
                       (let g1' = g1\<lparr>carry_over_pot := carry_over_pot g1 + current_prize g1\<rparr>
                        in if prizes g1' = [] then
                             (let split = of_int pot_val / 2 in
                              (g1'\<lparr>p1_score := p1_score g1' + split,
                                    p2_score := p2_score g1' + split,
                                    carry_over_pot := 0\<rparr>, ''Split''))
                           else (g1', ''Tie'')));
              g3 = g2\<lparr>round_history :=
                        round_history g2
                        @ [\<lparr>prize = current_prize g2, p1_card = c1, p2_card = c2,
                             result = label\<rparr>],
                      p1_move := None, p2_move := None\<rparr>
          in (case prizes g3 of
                [] \<Rightarrow> Inr (g3\<lparr>bw_game_over := True, current_prize := 0\<rparr>)
              | next_prize # rest \<Rightarrow> Inr (g3\<lparr>current_prize := next_prize, prizes := rest\<rparr>))
      | _ \<Rightarrow> Inl TypeError)"

text \<open>
  The bot's reply inside \<open>register_move\<close>, run when the second participant is a bot
  and the first participant's move \<open>m\<close> is set: \<open>self.bot.decide_move(...)\<close>
  (AttributeError when there is no bot object), then \<open>self.bot.record_move(...)\<close>.
\<close>

definition bot_reply :: "rand \<Rightarrow> int \<Rightarrow> bidwiser \<Rightarrow> py_error + bidwiser" where
  "bot_reply r m g =
     (case bot g of
        None \<Rightarrow> Inl AttributeError
      | Some b \<Rightarrow>
          let pot_val = current_prize g + carry_over_pot g in
          (case decide_move r (p2_hand g) (p1_hand g) pot_val (prizes g)
                  (p2_score g) (p1_score g) of
             Inl e \<Rightarrow> Inl e
           | Inr c \<Rightarrow>
               (case record_move (current_prize g) m b of
                  Inl e \<Rightarrow> Inl e
                | Inr b' \<Rightarrow> Inr (g\<lparr>p2_move := Some c, bot := Some b'\<rparr>))))"

text \<open>
  The first step of \<open>register_move\<close> ("identify who moved"): the card is stored as the
  caller's pending move when the caller is a participant and holds the card.
\<close>

definition note_move :: "string \<Rightarrow> int \<Rightarrow> bidwiser \<Rightarrow> bidwiser" where
  "note_move player_name crd g =
     (if player_name = p1_name g then
        (if crd \<in> set (p1_hand g) then g\<lparr>p1_move := Some crd\<rparr> else g)
      else if player_name = p2_name g \<and> \<not> p2_is_bot g then
        (if crd \<in> set (p2_hand g) then g\<lparr>p2_move := Some crd\<rparr> else g)
      else g)"

definition register_move ::
  "rand \<Rightarrow> string \<Rightarrow> int \<Rightarrow> bidwiser \<Rightarrow> py_error + (bool \<times> bidwiser)" where
  "register_move r player_name crd g =
     (if bw_game_over g then Inr (False, g)
      else
        let g1 = note_move player_name crd g in
          (case (if p2_is_bot g1 then
                   (case p1_move g1 of None \<Rightarrow> Inr g1 | Some m \<Rightarrow> bot_reply r m g1)
                 else Inr g1) of
             Inl e \<Rightarrow> Inl e
           | Inr g2 \<Rightarrow>
               if p1_move g2 \<noteq> None \<and> p2_move g2 \<noteq> None then
                 (case resolve_round g2 of
                    Inl e \<Rightarrow> Inl e
                  | Inr g3 \<Rightarrow> Inr (True, g3))
               else Inr (True, g2)))"

text \<open>A game: the constructor followed by a sequence of \<open>register_move\<close> calls.\<close>

fun run_moves :: "(rand \<times> string \<times> int) list \<Rightarrow> bidwiser \<Rightarrow> py_error + bidwiser" where
  "run_moves [] g = Inr g"
| "run_moves ((r, who, crd) # rest) g =
     (case register_move r who crd g of
        Inl e \<Rightarrow> Inl e
      | Inr (changed, g') \<Rightarrow> run_moves rest g')"

section \<open>Invariants, the search of the specification and example states\<close>

text \<open>
  Concrete engine states used to evaluate the transitions: Ann to move with no chips,
  one card left in the draw pile.
\<close>

definition example_game :: pickpass where
  "example_game =
     \<lparr>players = [\<lparr>name = ''Ann'', cards = [], chips = 0, is_human = True\<rparr>,
                 \<lparr>name = ''Bob'', cards = [6], chips = 2, is_human = True\<rparr>],
      deck = [7], pot = 3, current_card = 5, current_player_idx = 0,
      game_over = False, leaderboard = []\<rparr>"

text \<open>
  The state after Ann took the 5: the draw pile is empty and the 7 is face up.
\<close>

definition example_last_card :: pickpass where
  "example_last_card =
     \<lparr>players = [\<lparr>name = ''Ann'', cards = [5], chips = 3, is_human = True\<rparr>,
                 \<lparr>name = ''Bob'', cards = [6], chips = 2, is_human = True\<rparr>],
      deck = [], pot = 0, current_card = 7, current_player_idx = 1,
      game_over = False, leaderboard = []\<rparr>"

text \<open>
  The state three calls after the game has ended.
\<close>

definition example_after_end :: pickpass where
  "example_after_end =
     \<lparr>players = [\<lparr>name = ''Ann'', cards = [5, 7], chips = 2, is_human = True\<rparr>,
                 \<lparr>name = ''Bob'', cards = [6, 7, 7], chips = 3, is_human = True\<rparr>],
      deck = [], pot = 0, current_card = 7, current_player_idx = 1, game_over = True,
      leaderboard =
        [\<lparr>entry_name = ''Ann'', card_total = 12, entry_chips = 2, final_score = 10,
           entry_is_human = True\<rparr>,
         \<lparr>entry_name = ''Bob'', card_total = 13, entry_chips = 3, final_score = 10,
           entry_is_human = True\<rparr>]\<rparr>"

text \<open>
  The chip invariant of the engine: the pot and every stake are non-negative and the
  turn index is a seat.
\<close>

definition chips_invariant :: "pickpass \<Rightarrow> bool" where
  "chips_invariant g =
     (0 \<le> pot g \<and> list_all (\<lambda>p. 0 \<le> chips p) (players g)
      \<and> current_player_idx g < length (players g))"

text \<open>
  A freshly constructed one-human game on the unshuffled deck, and the state after all
  five players have passed eleven times each.
\<close>

definition example_start :: pickpass where
  "example_start =
     \<lparr>players =
        [\<lparr>name = ''Ann'', cards = [], chips = 11, is_human = True\<rparr>,
         \<lparr>name = ''Vector'', cards = [], chips = 11, is_human = False\<rparr>,
         \<lparr>name = ''Matrix'', cards = [], chips = 11, is_human = False\<rparr>,
         \<lparr>name = ''Tensor'', cards = [], chips = 11, is_human = False\<rparr>,
         \<lparr>name = ''Scalar'', cards = [], chips = 11, is_human = False\<rparr>],
      deck = [13, 14, 15, 16, 17, 18, 19, 20, 21, 22, 23, 24, 25, 26, 27, 28,
              29, 30, 31, 32, 33, 34, 35],
      pot = 0, current_card = 12, current_player_idx = 0,
      game_over = False, leaderboard = []\<rparr>"

definition example_broke :: pickpass where
  "example_broke =
     \<lparr>players =
        [\<lparr>name = ''Ann'', cards = [], chips = 0, is_human = True\<rparr>,
         \<lparr>name = ''Vector'', cards = [], chips = 0, is_human = False\<rparr>,
         \<lparr>name = ''Matrix'', cards = [], chips = 0, is_human = False\<rparr>,
         \<lparr>name = ''Tensor'', cards = [], chips = 0, is_human = False\<rparr>,
         \<lparr>name = ''Scalar'', cards = [], chips = 0, is_human = False\<rparr>],
      deck = [13, 14, 15, 16, 17, 18, 19, 20, 21, 22, 23, 24, 25, 26, 27, 28,
              29, 30, 31, 32, 33, 34, 35],
      pot = 55, current_card = 12, current_player_idx = 0,
      game_over = False, leaderboard = []\<rparr>"

text \<open>
  A BidWiser state in the last round with both moves set to the same card.
\<close>

definition example_final_tie :: bidwiser where
  "example_final_tie =
     \<lparr>prizes = [], p1_name = ''Ann'', p1_hand = [4], p1_score = 40, p1_move = Some 4,
      p2_name = ''Bob'', p2_is_bot = False, bot = None, p2_hand = [4], p2_score = 39,
      p2_move = Some 4, carry_over_pot = 5, round_history = [], current_prize = 7,
      bw_game_over = False\<rparr>"

text \<open>
  The invariant of the BidWiser engine between calls: hands and played cards are
  duplicate free and disjoint, both hands have one card per outstanding prize, the prizes
  are ranks 1..13, the carry-over is non-negative, and a bot game has its bot object with
  the keys 1..13 in its memory.
\<close>

definition hands_invariant :: "bidwiser \<Rightarrow> bool" where
  "hands_invariant g =
     (distinct (p1_hand g) \<and> distinct (p2_hand g)
      \<and> distinct (map p1_card (round_history g))
      \<and> distinct (map p2_card (round_history g))
      \<and> set (map p1_card (round_history g)) \<inter> set (p1_hand g) = {}
      \<and> set (map p2_card (round_history g)) \<inter> set (p2_hand g) = {}
      \<and> length (p1_hand g) = length (p2_hand g)
      \<and> (\<not> bw_game_over g \<longrightarrow>
            length (p2_hand g) = Suc (length (prizes g)) \<and> current_prize g \<in> {1..13})
      \<and> set (prizes g) \<subseteq> {1..13}
      \<and> 0 \<le> carry_over_pot g
      \<and> (p2_is_bot g \<longrightarrow>
            (\<exists>b. bot g = Some b \<and> {1..13} \<subseteq> dom (map_of (opponent_history b)))))"

text \<open>
  A pending move is a card of the mover's hand.
\<close>

definition moves_in_hand :: "bidwiser \<Rightarrow> bool" where
  "moves_in_hand g =
     ((\<forall>c. p1_move g = Some c \<longrightarrow> c \<in> set (p1_hand g))
      \<and> (\<forall>c. p2_move g = Some c \<longrightarrow> c \<in> set (p2_hand g)))"

text \<open>
  Between calls at most one move is pending, and none of the first participant's in a
  bot game (the bot replies inside the same call).
\<close>

definition awaiting_moves :: "bidwiser \<Rightarrow> bool" where
  "awaiting_moves g =
     ((p1_move g = None \<or> p2_move g = None) \<and> (p2_is_bot g \<longrightarrow> p1_move g = None))"

definition between_rounds :: "bidwiser \<Rightarrow> bool" where
  "between_rounds g = (hands_invariant g \<and> moves_in_hand g \<and> awaiting_moves g)"

text \<open>
  Fixed random draws and evaluated BidWiser games: two humans, and one human against
  the bot playing the cards 1 to 13 in order.
\<close>

definition example_rand :: rand where
  "example_rand = \<lparr>choice_idx = 0, jitter = (\<lambda>k. 0)\<rparr>"

definition example_bid_start :: bidwiser where
  "example_bid_start =
     \<lparr>prizes = [2, 3, 4, 5, 6, 7, 8, 9, 10, 11, 12, 13], p1_name = ''Ann'',
      p1_hand = [1, 2, 3, 4, 5, 6, 7, 8, 9, 10, 11, 12, 13], p1_score = 0, p1_move = None,
      p2_name = ''Bob'', p2_is_bot = False, bot = None,
      p2_hand = [1, 2, 3, 4, 5, 6, 7, 8, 9, 10, 11, 12, 13], p2_score = 0, p2_move = None,
      carry_over_pot = 0, round_history = [], current_prize = 1, bw_game_over = False\<rparr>"

definition example_bid_waiting :: bidwiser where
  "example_bid_waiting = example_bid_start\<lparr>p1_move := Some 5\<rparr>"

definition example_bid_round1 :: bidwiser where
  "example_bid_round1 =
     \<lparr>prizes = [3, 4, 5, 6, 7, 8, 9, 10, 11, 12, 13], p1_name = ''Ann'',
      p1_hand = [1, 2, 3, 4, 6, 7, 8, 9, 10, 11, 12, 13], p1_score = 0, p1_move = None,
      p2_name = ''Bob'', p2_is_bot = False, bot = None,
      p2_hand = [1, 2, 3, 4, 5, 6, 7, 8, 10, 11, 12, 13], p2_score = 1, p2_move = None,
      carry_over_pot = 0,
      round_history = [\<lparr>prize = 1, p1_card = 5, p2_card = 9, result = ''Bob Wins''\<rparr>],
      current_prize = 2, bw_game_over = False\<rparr>"

text \<open>
  The pending moves once a call's card has been registered: the card itself when the
  caller is that participant (for the second participant: a human one) and holds the
  card, and the move pending before the call otherwise.
\<close>

definition registered_p1 :: "string \<Rightarrow> int \<Rightarrow> bidwiser \<Rightarrow> int option" where
  "registered_p1 who crd g =
     (if who = p1_name g \<and> crd \<in> set (p1_hand g) then Some crd else p1_move g)"

definition registered_p2 :: "string \<Rightarrow> int \<Rightarrow> bidwiser \<Rightarrow> int option" where
  "registered_p2 who crd g =
     (if who \<noteq> p1_name g \<and> who = p2_name g \<and> \<not> p2_is_bot g \<and> crd \<in> set (p2_hand g)
      then Some crd else p2_move g)"

text \<open>
  What a resolved round leaves behind: each participant played a card of their hand,
  each hand has lost exactly that card, the round is the new last entry of the history,
  and no move is pending.
\<close>

definition round_resolved :: "bidwiser \<Rightarrow> int \<Rightarrow> int \<Rightarrow> bidwiser \<Rightarrow> bool" where
  "round_resolved g c1 c2 g' =
     (c1 \<in> set (p1_hand g) \<and> c2 \<in> set (p2_hand g)
      \<and> p1_hand g' = remove1 c1 (p1_hand g) \<and> p2_hand g' = remove1 c2 (p2_hand g)
      \<and> mset (p1_hand g) = add_mset c1 (mset (p1_hand g'))
      \<and> mset (p2_hand g) = add_mset c2 (mset (p2_hand g'))
      \<and> round_history g' = round_history g @ [last (round_history g')]
      \<and> prize (last (round_history g')) = current_prize g
      \<and> p1_card (last (round_history g')) = c1
      \<and> p2_card (last (round_history g')) = c2
      \<and> p1_move g' = None \<and> p2_move g' = None)"

definition example_bot_start :: bidwiser where
  "example_bot_start =
     \<lparr>prizes = [2, 3, 4, 5, 6, 7, 8, 9, 10, 11, 12, 13], p1_name = ''Ann'',
      p1_hand = [1, 2, 3, 4, 5, 6, 7, 8, 9, 10, 11, 12, 13], p1_score = 0, p1_move = None,
      p2_name = ''DeepGoof (Bot)'', p2_is_bot = True, bot = Some new_smartbot,
      p2_hand = [1, 2, 3, 4, 5, 6, 7, 8, 9, 10, 11, 12, 13], p2_score = 0, p2_move = None,
      carry_over_pot = 0, round_history = [], current_prize = 1, bw_game_over = False\<rparr>"

definition example_bot_final :: bidwiser where
  "example_bot_final =
     \<lparr>prizes = [], p1_name = ''Ann'', p1_hand = [], p1_score = 63, p1_move = None,
      p2_name = ''DeepGoof (Bot)'', p2_is_bot = True,
      bot = Some \<lparr>bot_name = ''DeepGoof'',
                  opponent_history =
                    [(1, [1]), (2, [2]), (3, [3]), (4, [4]), (5, [5]), (6, [6]),
                     (7, [7]), (8, [8]), (9, [9]), (10, [10]), (11, [11]),
                     (12, [12]), (13, [13])]\<rparr>,
      p2_hand = [], p2_score = 28, p2_move = None, carry_over_pot = 0,
      round_history =
        [\<lparr>prize = 1, p1_card = 1, p2_card = 1, result = ''Tie''\<rparr>,
         \<lparr>prize = 2, p1_card = 2, p2_card = 4, result = ''DeepGoof (Bot) Wins''\<rparr>,
         \<lparr>prize = 3, p1_card = 3, p2_card = 5, result = ''DeepGoof (Bot) Wins''\<rparr>,
         \<lparr>prize = 4, p1_card = 4, p2_card = 6, result = ''DeepGoof (Bot) Wins''\<rparr>,
         \<lparr>prize = 5, p1_card = 5, p2_card = 7, result = ''DeepGoof (Bot) Wins''\<rparr>,
         \<lparr>prize = 6, p1_card = 6, p2_card = 13, result = ''DeepGoof (Bot) Wins''\<rparr>,
         \<lparr>prize = 7, p1_card = 7, p2_card = 12, result = ''DeepGoof (Bot) Wins''\<rparr>,
         \<lparr>prize = 8, p1_card = 8, p2_card = 2, result = ''Ann Wins''\<rparr>,
         \<lparr>prize = 9, p1_card = 9, p2_card = 3, result = ''Ann Wins''\<rparr>,
         \<lparr>prize = 10, p1_card = 10, p2_card = 8, result = ''Ann Wins''\<rparr>,
         \<lparr>prize = 11, p1_card = 11, p2_card = 9, result = ''Ann Wins''\<rparr>,
         \<lparr>prize = 12, p1_card = 12, p2_card = 10, result = ''Ann Wins''\<rparr>,
         \<lparr>prize = 13, p1_card = 13, p2_card = 11, result = ''Ann Wins''\<rparr>],
      current_prize = 0, bw_game_over = True\<rparr>"

definition example_bot_round12 :: bidwiser where
  "example_bot_round12 =
     \<lparr>prizes = [], p1_name = ''Ann'', p1_hand = [13], p1_score = 50, p1_move = None,
      p2_name = ''DeepGoof (Bot)'', p2_is_bot = True,
      bot = Some \<lparr>bot_name = ''DeepGoof'',
                  opponent_history =
                    [(1, [1]), (2, [2]), (3, [3]), (4, [4]), (5, [5]), (6, [6]),
                     (7, [7]), (8, [8]), (9, [9]), (10, [10]), (11, [11]),
                     (12, [12]), (13, [])]\<rparr>,
      p2_hand = [11], p2_score = 28, p2_move = None, carry_over_pot = 0,
      round_history = butlast (round_history example_bot_final),
      current_prize = 13, bw_game_over = False\<rparr>"

text \<open>
  The search in the words of the specification and of the docstring of \<open>minimax_move\<close>:
  minimax to the end of the game. \<open>full_depth_worst\<close> is the final score differential
  the bot is sure of when it plays \<open>b\<close> now, the opponent answers with the reply that is
  worst for the bot, and the bot goes on choosing by the same search until the last prize
  is awarded. A tie carries the pot over to the next prize; a tie on the last prize splits
  it. (On an empty hand the maximum and minimum are 0; hands are never empty while a
  prize is at stake.)
\<close>

definition maximum :: "rat list \<Rightarrow> rat" where
  "maximum xs = (case xs of [] \<Rightarrow> 0 | x # rest \<Rightarrow> fold max rest x)"

definition minimum :: "rat list \<Rightarrow> rat" where
  "minimum xs = (case xs of [] \<Rightarrow> 0 | x # rest \<Rightarrow> fold min rest x)"

fun full_depth_worst ::
  "int list \<Rightarrow> int list \<Rightarrow> int \<Rightarrow> int list \<Rightarrow> rat \<Rightarrow> rat \<Rightarrow> int \<Rightarrow> rat" where
  "full_depth_worst bot_hand player_hand current_pot [] bot_score player_score b =
     minimum
       (map (\<lambda>p. case resolve_round_logic b p current_pot of
                    (b_won, p_won, is_tie) \<Rightarrow>
                      if is_tie then
                        (bot_score + of_int current_pot / 2)
                        - (player_score + of_int current_pot / 2)
                      else (bot_score + of_int b_won) - (player_score + of_int p_won))
            player_hand)"
| "full_depth_worst bot_hand player_hand current_pot (next_prize # rest) bot_score player_score b =
     minimum
       (map (\<lambda>p. case resolve_round_logic b p current_pot of
                    (b_won, p_won, is_tie) \<Rightarrow>
                      maximum
                        (map (\<lambda>b'. full_depth_worst (remove1 b bot_hand) (remove1 p player_hand)
                                      (if is_tie then next_prize + current_pot else next_prize)
                                      rest
                                      (bot_score + of_int b_won) (player_score + of_int p_won) b')
                             (remove1 b bot_hand)))
            player_hand)"

definition full_depth_options ::
  "int list \<Rightarrow> int list \<Rightarrow> int \<Rightarrow> int list \<Rightarrow> rat \<Rightarrow> rat \<Rightarrow> int list" where
  "full_depth_options bot_hand player_hand current_pot remaining_prizes bot_score player_score =
     (let worst = full_depth_worst bot_hand player_hand current_pot remaining_prizes
                    bot_score player_score;
          best = maximum (map worst bot_hand)
      in filter (\<lambda>b. worst b = best) (rev (sort bot_hand)))"

text \<open>
  A game against the bot, eleven rounds long: the shuffled prizes and the cards Ann
  plays, and the state the engine is in before the twelfth round.
\<close>

definition endgame_shuffle :: "int list" where
  "endgame_shuffle = [1, 9, 13, 4, 3, 5, 10, 11, 2, 6, 8, 7, 12]"

definition endgame_calls :: "(rand \<times> string \<times> int) list" where
  "endgame_calls =
     map (\<lambda>c. (example_rand, ''Ann'', c)) [10, 3, 4, 13, 8, 7, 2, 6, 12, 9, 11]"

definition play_game ::
  "string list \<Rightarrow> int list \<Rightarrow> (rand \<times> string \<times> int) list \<Rightarrow> py_error + bidwiser" where
  "play_game human_players shuffled calls =
     (case init_bidwiser human_players shuffled of
        Inl e \<Rightarrow> Inl e
      | Inr g \<Rightarrow> run_moves calls g)"

definition endgame_state :: bidwiser where
  "endgame_state =
     \<lparr>prizes = [12], p1_name = ''Ann'', p1_hand = [1, 5], p1_score = 35, p1_move = None,
      p2_name = ''DeepGoof (Bot)'', p2_is_bot = True,
      bot = Some \<lparr>bot_name = ''DeepGoof'',
                  opponent_history =
                    [(1, [10]), (2, [12]), (3, [8]), (4, [13]), (5, [7]), (6, [9]),
                     (7, []), (8, [11]), (9, [3]), (10, [2]), (11, [6]), (12, []),
                     (13, [4])]\<rparr>,
      p2_hand = [4, 10], p2_score = 37, p2_move = None, carry_over_pot = 0,
      round_history =
        [\<lparr>prize = 1, p1_card = 10, p2_card = 1, result = ''Ann Wins''\<rparr>,
         \<lparr>prize = 9, p1_card = 3, p2_card = 13, result = ''DeepGoof (Bot) Wins''\<rparr>,
         \<lparr>prize = 13, p1_card = 4, p2_card = 12, result = ''DeepGoof (Bot) Wins''\<rparr>,
         \<lparr>prize = 4, p1_card = 13, p2_card = 2, result = ''Ann Wins''\<rparr>,
         \<lparr>prize = 3, p1_card = 8, p2_card = 3, result = ''Ann Wins''\<rparr>,
         \<lparr>prize = 5, p1_card = 7, p2_card = 7, result = ''Tie''\<rparr>,
         \<lparr>prize = 10, p1_card = 2, p2_card = 11, result = ''DeepGoof (Bot) Wins''\<rparr>,
         \<lparr>prize = 11, p1_card = 6, p2_card = 6, result = ''Tie''\<rparr>,
         \<lparr>prize = 2, p1_card = 12, p2_card = 5, result = ''Ann Wins''\<rparr>,
         \<lparr>prize = 6, p1_card = 9, p2_card = 9, result = ''Tie''\<rparr>,
         \<lparr>prize = 8, p1_card = 11, p2_card = 8, result = ''Ann Wins''\<rparr>],
      current_prize = 7, bw_game_over = False\<rparr>"

section \<open>Scoring: proofs\<close>

lemma score_walk_acc:
  "score_walk previous score cs = score + score_walk previous 0 cs"
proof (induction cs arbitrary: previous score)
  case Nil
  show ?case by simp
next
  case (Cons c cs)
  have "score_walk previous score (c # cs)
        = (if c \<noteq> previous + 1 then score + c else score) + score_walk c 0 cs"
    using Cons.IH [of c "if c \<noteq> previous + 1 then score + c else score"] by simp
  also have "\<dots> = score + score_walk previous 0 (c # cs)"
    using Cons.IH [of c "if c \<noteq> previous + 1 then 0 + c else 0"] by simp
  finally show ?case .
qed

lemma score_walk_pairs:
  "score_walk previous 0 (c # cs) =
     (if c \<noteq> previous + 1 then c else 0)
     + sum_list (map snd (filter (\<lambda>(p, c). c \<noteq> p + 1) (zip (c # cs) cs)))"
proof (induction cs arbitrary: previous c)
  case Nil
  show ?case by simp
next
  case (Cons d ds)
  have "score_walk previous 0 (c # d # ds)
        = (if c \<noteq> previous + 1 then c else 0) + score_walk c 0 (d # ds)"
    using score_walk_acc [of c "if c \<noteq> previous + 1 then 0 + c else 0" "d # ds"] by simp
  then show ?case
    using Cons.IH [of c d] by simp
qed

lemma score_walk_first:
  "score_walk (- 1) 0 (c # cs) =
     c + sum_list (map snd (filter (\<lambda>(p, c). c \<noteq> p + 1) (zip (c # cs) cs)))"
proof -
  have "(if c \<noteq> - 1 + 1 then c else 0) = c" by simp
  then show ?thesis using score_walk_pairs [of "- 1" c cs] by simp
qed

lemma calculate_score_eq_spec: "calculate_score xs = score_spec xs"
proof (cases "sort xs")
  case Nil
  then have "xs = []" by (metis length_0_conv length_sort)
  then show ?thesis by (simp add: calculate_score_def score_spec_def)
next
  case (Cons c cs)
  then have "xs \<noteq> []" by auto
  then show ?thesis
    using Cons score_walk_first [of c cs]
    by (simp add: calculate_score_def score_spec_def)
qed

lemma calculate_score_perm:
  assumes "mset ys = mset xs"
  shows "calculate_score ys = calculate_score xs"
proof -
  have "sort ys = sort xs"
    using assms by (metis sorted_list_of_multiset_mset)
  moreover have "ys = [] \<longleftrightarrow> xs = []"
    using assms by (metis mset_zero_iff)
  ultimately show ?thesis by (simp add: calculate_score_def)
qed

text \<open>
  C1. For every collection of cards the score is the sum of the face values of the cards
  that do not immediately follow their predecessor in ascending sorted order; the empty
  collection scores 0; two collections holding the same cards in a different order score
  the same; and \<open>score [] = 0\<close>, \<open>score [5] = 5\<close>, \<open>score [5,6,7] = 5\<close>,
  \<open>score [5,7] = 12\<close>.
\<close>

theorem calculate_score_correct:
  assumes "mset ys = mset xs"
  shows "calculate_score xs = score_spec xs
       \<and> calculate_score ys = calculate_score xs
       \<and> calculate_score [] = 0
       \<and> calculate_score [5] = 5
       \<and> calculate_score [5, 6, 7] = 5
       \<and> calculate_score [5, 7] = 12"
proof -
  have "calculate_score [] = 0" by (simp add: calculate_score_def)
  moreover have "calculate_score [5] = 5" by (simp add: calculate_score_def)
  moreover have "calculate_score [5, 6, 7] = 5" by (simp add: calculate_score_def)
  moreover have "calculate_score [5, 7] = 12" by (simp add: calculate_score_def)
  ultimately show ?thesis
    using calculate_score_eq_spec [of xs] calculate_score_perm [OF assms] by simp
qed

theorem calculate_score_correct_witness:
  "mset [7, 5, 6] = mset [5, 6, 7 :: int]
   \<and> calculate_score [5, 6, 7] = score_spec [5, 6, 7]
   \<and> calculate_score [7, 5, 6] = calculate_score [5, 6, 7]
   \<and> calculate_score [7, 5, 6] = 5"
proof -
  have h: "mset [7, 5, 6] = mset [5, 6, 7 :: int]" by simp
  show ?thesis using h calculate_score_correct [OF h] by simp
qed

section \<open>PickPass: chips, the take branch and the shape of a transition\<close>

lemma predict_eq:
  "predict_opponent_action opp crd projected_pot =
     (if chips opp = 0 then 1
      else if calculate_score (cards opp @ [crd]) < calculate_score (cards opp) then
        (if chips opp < 3 then 1 else 4 / 5)
      else if chips opp \<le> 2 \<and> 3 \<le> projected_pot then 9 / 10
      else if crd < 2 * projected_pot then 3 / 5
      else 1 / 10)"
proof -
  have half: "(of_int crd / 2 < (of_int projected_pot :: rat)) \<longleftrightarrow> crd < 2 * projected_pot"
  proof -
    have "(of_int crd / 2 < (of_int projected_pot :: rat))
          \<longleftrightarrow> (of_int crd :: rat) < of_int (2 * projected_pot)"
      by (simp add: field_simps)
    also have "\<dots> \<longleftrightarrow> crd < 2 * projected_pot"
      by (simp only: of_int_less_iff)
    finally show ?thesis .
  qed
  show ?thesis
    unfolding predict_opponent_action_def Let_def using half by simp
qed

lemma sum_chips_update:
  "i < length ps \<Longrightarrow>
   sum_list (map chips (ps[i := p])) = sum_list (map chips ps) - chips (ps ! i) + chips p"
proof (induction ps arbitrary: i)
  case Nil
  then show ?case by simp
next
  case (Cons q qs)
  show ?case
  proof (cases i)
    case 0
    then show ?thesis by simp
  next
    case (Suc j)
    with Cons.prems have "j < length qs" by simp
    from Cons.IH [OF this] Suc show ?thesis by simp
  qed
qed

lemma players_end_game [simp]: "players (end_game g) = players g"
  and pot_end_game [simp]: "pot (end_game g) = pot g"
  and idx_end_game [simp]: "current_player_idx (end_game g) = current_player_idx g"
  by (simp_all add: end_game_def)

lemma players_take_branch:
  "players (take_branch g) =
     (players g)[current_player_idx g :=
        (players g ! current_player_idx g)
          \<lparr>cards := cards (players g ! current_player_idx g) @ [current_card g],
           chips := chips (players g ! current_player_idx g) + pot g\<rparr>]"
  by (simp add: take_branch_def Let_def split: list.split)

lemma pot_take_branch: "pot (take_branch g) = 0"
  by (simp add: take_branch_def Let_def split: list.split)

lemma idx_take_branch:
  "current_player_idx (take_branch g) = (current_player_idx g + 1) mod length (players g)"
  by (simp add: take_branch_def Let_def split: list.split)

lemma total_take_branch:
  assumes "current_player_idx g < length (players g)"
  shows "total_chips (take_branch g) = total_chips g"
  using assms
  by (simp add: total_chips_def players_take_branch pot_take_branch sum_chips_update)

lemma play_turn_cases:
  assumes "play_turn action who g = Inr g'"
  shows "current_player_idx g < length (players g) \<and>
         (g' = g \<or> g' = take_branch g \<or>
          (0 < chips (players g ! current_player_idx g) \<and>
           g' = g\<lparr>players := (players g)[current_player_idx g :=
                      (players g ! current_player_idx g)
                        \<lparr>chips := chips (players g ! current_player_idx g) - 1\<rparr>],
                   pot := pot g + 1,
                   current_player_idx := (current_player_idx g + 1) mod length (players g)\<rparr>))"
  using assms by (auto simp: play_turn_def Let_def split: if_splits)

lemma play_turn_total:
  assumes "play_turn action who g = Inr g'"
  shows "total_chips g' = total_chips g"
proof -
  from play_turn_cases [OF assms]
  have i: "current_player_idx g < length (players g)" and
    c: "g' = g \<or> g' = take_branch g \<or>
          (0 < chips (players g ! current_player_idx g) \<and>
           g' = g\<lparr>players := (players g)[current_player_idx g :=
                      (players g ! current_player_idx g)
                        \<lparr>chips := chips (players g ! current_player_idx g) - 1\<rparr>],
                   pot := pot g + 1,
                   current_player_idx := (current_player_idx g + 1) mod length (players g)\<rparr>)"
    by blast+
  from c show ?thesis
  proof (elim disjE conjE)
    assume "g' = g" then show ?thesis by simp
  next
    assume "g' = take_branch g" then show ?thesis using total_take_branch [OF i] by simp
  next
    assume "g' = g\<lparr>players := (players g)[current_player_idx g :=
                      (players g ! current_player_idx g)
                        \<lparr>chips := chips (players g ! current_player_idx g) - 1\<rparr>],
                   pot := pot g + 1,
                   current_player_idx := (current_player_idx g + 1) mod length (players g)\<rparr>"
    then show ?thesis using i by (simp add: total_chips_def sum_chips_update)
  qed
qed

section \<open>PickPass: the chip invariant, the opponent heuristic and turn ownership\<close>

lemma chips_invariant_init:
  assumes "init_game human_players shuffled start = Inr g0"
      and "start < length (players g0)"
  shows "chips_invariant g0"
proof -
  from assms(1) obtain c rest where
    g0: "g0 = \<lparr>players = init_players human_players, deck = rest, pot = 0,
               current_card = c, current_player_idx = start, game_over = False,
               leaderboard = []\<rparr>"
    by (auto simp: init_game_def split: list.splits)
  have "list_all (\<lambda>p. 0 \<le> chips p) (init_players human_players)"
    by (auto simp: init_players_def new_player_def list_all_iff)
  with g0 assms(2) show ?thesis by (simp add: chips_invariant_def)
qed

lemma list_all_chips_update:
  "list_all (\<lambda>p. 0 \<le> chips p) ps \<Longrightarrow> 0 \<le> chips p \<Longrightarrow>
   list_all (\<lambda>p. 0 \<le> chips p) (ps[i := p])"
  by (auto simp: list_all_iff dest!: set_update_subset_insert [THEN subsetD])

lemma next_seat_valid: "i < n \<Longrightarrow> (i + 1) mod n < (n::nat)"
  by (cases n) simp_all

lemma chips_invariant_take_branch:
  assumes "chips_invariant g"
  shows "chips_invariant (take_branch g)"
proof -
  let ?i = "current_player_idx g"
  from assms have i: "?i < length (players g)" and p: "0 \<le> pot g"
    and a: "list_all (\<lambda>p. 0 \<le> chips p) (players g)"
    by (simp_all add: chips_invariant_def)
  from a i have "0 \<le> chips (players g ! ?i)" by (simp add: list_all_length)
  with p a have "list_all (\<lambda>p. 0 \<le> chips p) (players (take_branch g))"
    unfolding players_take_branch by (intro list_all_chips_update) simp_all
  moreover have "current_player_idx (take_branch g) < length (players (take_branch g))"
    using next_seat_valid [OF i] by (simp add: idx_take_branch players_take_branch)
  ultimately show ?thesis by (simp add: chips_invariant_def pot_take_branch)
qed

lemma chips_invariant_step:
  assumes "chips_invariant g" and "play_turn action who g = Inr g'"
  shows "chips_invariant g'"
proof -
  let ?i = "current_player_idx g"
  from assms(1) have i: "?i < length (players g)" and p: "0 \<le> pot g"
    and a: "list_all (\<lambda>p. 0 \<le> chips p) (players g)"
    by (simp_all add: chips_invariant_def)
  from play_turn_cases [OF assms(2)]
  consider "g' = g" | "g' = take_branch g"
    | "0 < chips (players g ! ?i)"
      "g' = g\<lparr>players := (players g)[?i := (players g ! ?i)\<lparr>chips := chips (players g ! ?i) - 1\<rparr>],
              pot := pot g + 1,
              current_player_idx := (?i + 1) mod length (players g)\<rparr>"
    by blast
  then show ?thesis
  proof cases
    case 1 with assms(1) show ?thesis by simp
  next
    case 2 with chips_invariant_take_branch [OF assms(1)] show ?thesis by simp
  next
    case 3
    from 3(1) a have "list_all (\<lambda>p. 0 \<le> chips p)
         ((players g)[?i := (players g ! ?i)\<lparr>chips := chips (players g ! ?i) - 1\<rparr>])"
      by (intro list_all_chips_update) simp_all
    with 3(2) p next_seat_valid [OF i] show ?thesis by (simp add: chips_invariant_def)
  qed
qed

lemma chips_invariant_run:
  assumes "chips_invariant g0" and "run_turns calls g0 = Inr g"
  shows "chips_invariant g"
  using assms
proof (induction calls arbitrary: g0)
  case Nil
  then show ?case by simp
next
  case (Cons call calls)
  obtain action who where call: "call = (action, who)" by (cases call)
  with Cons.prems(2) obtain g1 where
    s: "play_turn action who g0 = Inr g1" and r: "run_turns calls g1 = Inr g"
    by (auto split: sum.splits)
  from Cons.IH [OF chips_invariant_step [OF Cons.prems(1) s] r] show ?case .
qed

text \<open>
  C2 (as amended). For every opponent, card and projected pot, the take probability is
  1.0 if the opponent has zero chips; else, if adding the card would lower the
  opponent's own score, 1.0 when they hold under 3 chips and 0.8 when they hold 3 or
  more; else 0.9 if they hold at most 2 chips and the projected pot is at least 3; else
  0.6 if the projected pot exceeds half the card's face value; otherwise 0.1.
\<close>

theorem predict_opponent_action_table:
  "predict_opponent_action opp crd projected_pot =
     (if chips opp = 0 then 1
      else if calculate_score (cards opp @ [crd]) < calculate_score (cards opp) then
        (if chips opp < 3 then 1 else 8 / 10)
      else if chips opp \<le> 2 \<and> 3 \<le> projected_pot then 9 / 10
      else if crd < 2 * projected_pot then 6 / 10
      else 1 / 10)"
  using predict_eq [of opp crd projected_pot] by simp

text \<open>
  C2 as stated fails. An opponent holding [6] and 2 chips is offered the 5: the card
  lowers their score and they hold under 3 chips, and the code returns 1.0, not 0.8.
  With 5 chips instead the code returns 0.8, where the stated table falls through to
  0.1.
\<close>

theorem predict_claimed_table_counterexample:
  "chips \<lparr>name = ''Bob'', cards = [6], chips = 2, is_human = True\<rparr> \<noteq> 0
   \<and> calculate_score (cards \<lparr>name = ''Bob'', cards = [6], chips = 2, is_human = True\<rparr> @ [5])
       < calculate_score (cards \<lparr>name = ''Bob'', cards = [6], chips = 2, is_human = True\<rparr>)
   \<and> chips \<lparr>name = ''Bob'', cards = [6], chips = 2, is_human = True\<rparr> < 3
   \<and> predict_opponent_action \<lparr>name = ''Bob'', cards = [6], chips = 2, is_human = True\<rparr> 5 0 = 1
   \<and> predict_opponent_action \<lparr>name = ''Bob'', cards = [6], chips = 2, is_human = True\<rparr> 5 0
       \<noteq> 8 / 10
   \<and> \<not> chips \<lparr>name = ''Bob'', cards = [6], chips = 5, is_human = True\<rparr> < 3
   \<and> \<not> (5 :: int) < 2 * 0
   \<and> predict_opponent_action \<lparr>name = ''Bob'', cards = [6], chips = 5, is_human = True\<rparr> 5 0
       = 8 / 10
   \<and> predict_opponent_action \<lparr>name = ''Bob'', cards = [6], chips = 5, is_human = True\<rparr> 5 0
       \<noteq> 1 / 10"
  by (simp add: predict_opponent_action_def calculate_score_def)

text \<open>
  Turn ownership where the guard applies: for every action submitted with a non-empty
  identity string that is not the current player's name, \<open>play_turn\<close> changes no
  field of the engine and returns the snapshot of the unchanged engine.
\<close>

lemma play_turn_wrong_identity_noop:
  assumes "current_player_idx g < length (players g)"
      and "who \<noteq> []"
      and "who \<noteq> name (players g ! current_player_idx g)"
  shows "play_turn action (Some who) g = Inr g
       \<and> play_turn_returns action (Some who) g = get_state g"
proof -
  have "play_turn action (Some who) g = Inr g"
    using assms by (auto simp: play_turn_def truthy_def Let_def)
  then show ?thesis by (simp add: play_turn_returns_def)
qed

lemma play_turn_wrong_identity_noop_example:
  "current_player_idx example_game < length (players example_game)
   \<and> ''Bob'' \<noteq> []
   \<and> ''Bob'' \<noteq> name (players example_game ! current_player_idx example_game)
   \<and> play_turn ''take'' (Some ''Bob'') example_game = Inr example_game
   \<and> play_turn ''pass'' (Some ''Bob'') example_game = Inr example_game
   \<and> play_turn_returns ''take'' (Some ''Bob'') example_game = get_state example_game"
proof -
  have h1: "current_player_idx example_game < length (players example_game)"
    by (simp add: example_game_def)
  have h2: "''Bob'' \<noteq> []" by simp
  have h3: "''Bob'' \<noteq> name (players example_game ! current_player_idx example_game)"
    by (simp add: example_game_def)
  show ?thesis
    using h1 h2 h3 play_turn_wrong_identity_noop [OF h1 h2 h3, of "''take''"]
      play_turn_wrong_identity_noop [OF h1 h2 h3, of "''pass''"]
    by simp
qed

text \<open>
  C4, the code at the failing input. The empty identity string is no player's name in
  the game just constructed for Ann, yet \<open>play_turn\<close> treats it as a call without
  identity (as it does in every state): Ann's turn is played, she receives the face-up
  card 12 and the turn moves to seat 1, whereas the identity 'Bob' is rejected and
  leaves the engine unchanged. A 'pass' under the empty identity changes the engine as
  well.
\<close>

theorem play_turn_empty_identity_skips_check:
  "play_turn action (Some '''') g = play_turn action None g
   \<and> init_game [''Ann''] [3..35] 0 = Inr example_start
   \<and> name (players example_start ! current_player_idx example_start) = ''Ann''
   \<and> play_turn ''take'' (Some ''Bob'') example_start = Inr example_start
   \<and> play_turn ''take'' (Some '''') example_start = Inr (take_branch example_start)
   \<and> take_branch example_start \<noteq> example_start
   \<and> cards (players (take_branch example_start) ! 0) = [12]
   \<and> current_player_idx (take_branch example_start) = 1
   \<and> play_turn ''pass'' (Some '''') example_start \<noteq> Inr example_start"
proof -
  have a: "play_turn action (Some '''') g = play_turn action None g"
    by (simp add: play_turn_def truthy_def)
  have b: "init_game [''Ann''] [3..35] 0 = Inr example_start" by code_simp
  have c: "name (players example_start ! current_player_idx example_start) = ''Ann''"
    by (simp add: example_start_def)
  have d: "play_turn ''take'' (Some ''Bob'') example_start = Inr example_start"
    by (simp add: play_turn_def truthy_def example_start_def)
  have e: "play_turn ''take'' (Some '''') example_start = Inr (take_branch example_start)"
    by (simp add: play_turn_def truthy_def example_start_def)
  have f: "cards (players (take_branch example_start) ! 0) = [12]"
    "current_player_idx (take_branch example_start) = 1"
    by (simp_all add: players_take_branch idx_take_branch example_start_def)
  have g: "take_branch example_start \<noteq> example_start"
  proof
    assume "take_branch example_start = example_start"
    then have "current_player_idx (take_branch example_start) = current_player_idx example_start"
      by simp
    with f(2) show False by (simp add: example_start_def)
  qed
  have h: "play_turn ''pass'' (Some '''') example_start \<noteq> Inr example_start"
  proof
    assume "play_turn ''pass'' (Some '''') example_start = Inr example_start"
    then have "pot example_start = pot example_start + 1"
      by (simp add: play_turn_def truthy_def example_start_def Let_def)
    then show False by simp
  qed
  from a b c d e f g h show ?thesis by blast
qed

section \<open>PickPass: chip conservation and the forced take\<close>

lemma play_turn_take_accepted:
  assumes "current_player_idx g < length (players g)"
      and "\<not> (truthy who \<and> Some (name (players g ! current_player_idx g)) \<noteq> who)"
  shows "play_turn ''take'' who g = Inr (take_branch g)"
  using assms by (auto simp: play_turn_def Let_def)

lemma play_turn_pass_broke:
  assumes "current_player_idx g < length (players g)"
      and "\<not> (truthy who \<and> Some (name (players g ! current_player_idx g)) \<noteq> who)"
      and "chips (players g ! current_player_idx g) = 0"
  shows "play_turn ''pass'' who g = Inr (take_branch g)"
  using assms by (auto simp: play_turn_def Let_def)

text \<open>
  C5. Every \<open>play_turn\<close> transition, in particular every 'pass' and every 'take',
  leaves the total number of chips (all players' chips plus the pot) unchanged; and
  across an accepted 'take' the pot becomes 0, the acting player's chips grow by the
  whole pot and every other player's chips are unchanged.
\<close>

theorem play_turn_conserves_chips:
  assumes "play_turn action who g = Inr g'"
  shows "total_chips g' = total_chips g
       \<and> (action = ''take''
            \<and> \<not> (truthy who \<and> Some (name (players g ! current_player_idx g)) \<noteq> who)
          \<longrightarrow> pot g' = 0
              \<and> map chips (players g') =
                  (map chips (players g))
                    [current_player_idx g := chips (players g ! current_player_idx g) + pot g])"
proof -
  from play_turn_cases [OF assms] have i: "current_player_idx g < length (players g)" by blast
  have "pot g' = 0 \<and> map chips (players g') =
          (map chips (players g))
            [current_player_idx g := chips (players g ! current_player_idx g) + pot g]"
    if a: "action = ''take''"
      and w: "\<not> (truthy who \<and> Some (name (players g ! current_player_idx g)) \<noteq> who)"
  proof -
    from assms a play_turn_take_accepted [OF i w] have "g' = take_branch g" by simp
    then show ?thesis
      by (simp add: pot_take_branch players_take_branch map_update)
  qed
  with play_turn_total [OF assms] show ?thesis by blast
qed

theorem play_turn_conserves_chips_witness:
  "play_turn ''take'' (Some ''Ann'') example_game = Inr (take_branch example_game)
   \<and> total_chips (take_branch example_game) = total_chips example_game
   \<and> total_chips example_game = 5
   \<and> pot (take_branch example_game) = 0
   \<and> map chips (players (take_branch example_game)) = [3, 2]"
proof -
  have h: "play_turn ''take'' (Some ''Ann'') example_game = Inr (take_branch example_game)"
    by (simp add: play_turn_def example_game_def truthy_def Let_def)
  show ?thesis
    using h play_turn_conserves_chips [OF h]
    by (simp add: example_game_def truthy_def total_chips_def)
qed

text \<open>
  C6. In every state reached from the constructor by \<open>play_turn\<close> calls, no transition
  leaves any player with a negative chip count; and a 'pass' by the current player who
  holds zero chips is the forced 'take': it gives the same result as 'take', the player
  receives the face-up card and the pot.
\<close>

theorem zero_chip_pass_is_forced_take:
  assumes "init_game human_players shuffled start = Inr g0"
      and "start < length (players g0)"
      and "run_turns calls g0 = Inr g"
      and "play_turn action who g = Inr g'"
  shows "(\<forall>p \<in> set (players g'). 0 \<le> chips p)
       \<and> (chips (players g ! current_player_idx g) = 0
            \<and> \<not> (truthy who \<and> Some (name (players g ! current_player_idx g)) \<noteq> who)
          \<longrightarrow> play_turn ''pass'' who g = play_turn ''take'' who g
              \<and> play_turn ''pass'' who g = Inr (take_branch g)
              \<and> cards (players (take_branch g) ! current_player_idx g) =
                  cards (players g ! current_player_idx g) @ [current_card g]
              \<and> chips (players (take_branch g) ! current_player_idx g) = pot g)"
proof -
  have inv: "chips_invariant g"
    using chips_invariant_run [OF chips_invariant_init [OF assms(1,2)] assms(3)] .
  then have i: "current_player_idx g < length (players g)"
    by (simp add: chips_invariant_def)
  from chips_invariant_step [OF inv assms(4)]
  have "\<forall>p \<in> set (players g'). 0 \<le> chips p"
    by (simp add: chips_invariant_def list_all_iff)
  moreover have "play_turn ''pass'' who g = play_turn ''take'' who g
              \<and> play_turn ''pass'' who g = Inr (take_branch g)
              \<and> cards (players (take_branch g) ! current_player_idx g) =
                  cards (players g ! current_player_idx g) @ [current_card g]
              \<and> chips (players (take_branch g) ! current_player_idx g) = pot g"
    if z: "chips (players g ! current_player_idx g) = 0"
      and w: "\<not> (truthy who \<and> Some (name (players g ! current_player_idx g)) \<noteq> who)"
    using play_turn_pass_broke [OF i w z] play_turn_take_accepted [OF i w] i z
    by (simp add: players_take_branch)
  ultimately show ?thesis by blast
qed

theorem zero_chip_pass_is_forced_take_witness:
  "init_game [''Ann''] [3..35] 0 = Inr example_start
   \<and> 0 < length (players example_start)
   \<and> run_turns (replicate 55 (''pass'', None)) example_start = Inr example_broke
   \<and> chips (players example_broke ! current_player_idx example_broke) = 0
   \<and> play_turn ''pass'' (Some ''Ann'') example_broke = Inr (take_branch example_broke)
   \<and> play_turn ''pass'' (Some ''Ann'') example_broke
       = play_turn ''take'' (Some ''Ann'') example_broke
   \<and> map chips (players (take_branch example_broke)) = [55, 0, 0, 0, 0]
   \<and> map cards (players (take_branch example_broke)) = [[12], [], [], [], []]"
proof -
  have h1: "init_game [''Ann''] [3..35] 0 = Inr example_start"
    by code_simp
  have h2: "0 < length (players example_start)"
    by (simp add: example_start_def)
  have h3: "run_turns (replicate 55 (''pass'', None)) example_start = Inr example_broke"
    by code_simp
  have h4: "play_turn ''pass'' (Some ''Ann'') example_broke = Inr (take_branch example_broke)"
    by (simp add: play_turn_def example_broke_def truthy_def Let_def)
  have h5: "chips (players example_broke ! current_player_idx example_broke) = 0"
    by (simp add: example_broke_def)
  have h6: "\<not> (truthy (Some ''Ann'')
        \<and> Some (name (players example_broke ! current_player_idx example_broke)) \<noteq> Some ''Ann'')"
    by (simp add: example_broke_def)
  have h7: "map chips (players (take_branch example_broke)) = [55, 0, 0, 0, 0]"
    by (simp add: players_take_branch example_broke_def)
  have h8: "map cards (players (take_branch example_broke)) = [[12], [], [], [], []]"
    by (simp add: players_take_branch example_broke_def)
  from zero_chip_pass_is_forced_take [OF h1 h2 h3 h4] h5 h6
  have "play_turn ''pass'' (Some ''Ann'') example_broke
       = play_turn ''take'' (Some ''Ann'') example_broke"
    by blast
  with h1 h2 h3 h4 h5 h7 h8 show ?thesis by blast
qed

section \<open>PickPass: the end of the game\<close>

lemma game_over_take_branch:
  "game_over (take_branch g) = (game_over g \<or> deck g = [])"
  by (simp add: take_branch_def end_game_def Let_def split: list.split)

lemma leaderboard_take_branch:
  "leaderboard (take_branch g) =
     (if deck g = [] then sort_key final_score (map entry_of (players (take_branch g)))
      else leaderboard g)"
  by (simp add: take_branch_def end_game_def Let_def split: list.split)

lemma game_over_stays:
  assumes "game_over g" and "play_turn action who g = Inr g'"
  shows "game_over g'"
proof -
  from play_turn_cases [OF assms(2)] assms(1) show ?thesis
    by (auto simp: game_over_take_branch)
qed

lemma game_over_run:
  assumes "game_over g" and "run_turns calls g = Inr g'"
  shows "game_over g'"
  using assms
proof (induction calls arbitrary: g)
  case Nil
  then show ?case by simp
next
  case (Cons call calls)
  obtain action who where call: "call = (action, who)" by (cases call)
  with Cons.prems(2) obtain g1 where
    s: "play_turn action who g = Inr g1" and r: "run_turns calls g1 = Inr g'"
    by (auto split: sum.splits)
  from Cons.IH [OF game_over_stays [OF Cons.prems(1) s] r] show ?case .
qed

text \<open>
  C9 (as amended). An accepted 'take' made while the draw pile is already empty (no
  card is left to reveal) sets \<open>game_over\<close>, and it stays set under every later call
  and every later sequence of calls; the leaderboard then has exactly one entry per
  player, each entry's \<open>final_score\<close> is the score of that player's cards minus their
  chips, and the entries are sorted ascending by \<open>final_score\<close> with equal scores left
  in player order. A 'take' that finds a card in the draw pile changes neither
  \<open>game_over\<close> nor the leaderboard.
\<close>

theorem take_with_empty_deck_ends_game:
  assumes "current_player_idx g < length (players g)"
      and "\<not> (truthy who \<and> Some (name (players g ! current_player_idx g)) \<noteq> who)"
  shows "play_turn ''take'' who g = Inr (take_branch g)
       \<and> (deck g \<noteq> [] \<longrightarrow>
            game_over (take_branch g) = game_over g
          \<and> leaderboard (take_branch g) = leaderboard g)
       \<and> (deck g = [] \<longrightarrow>
            game_over (take_branch g)
          \<and> length (leaderboard (take_branch g)) = length (players (take_branch g))
          \<and> mset (leaderboard (take_branch g)) = mset (map entry_of (players (take_branch g)))
          \<and> (\<forall>p. final_score (entry_of p) = calculate_score (cards p) - chips p
                 \<and> entry_name (entry_of p) = name p)
          \<and> sorted (map final_score (leaderboard (take_branch g)))
          \<and> (\<forall>k. filter (\<lambda>e. final_score e = k) (leaderboard (take_branch g))
                  = filter (\<lambda>e. final_score e = k) (map entry_of (players (take_branch g))))
          \<and> (\<forall>action' who' g''. play_turn action' who' (take_branch g) = Inr g''
                 \<longrightarrow> game_over g'')
          \<and> (\<forall>calls g''. run_turns calls (take_branch g) = Inr g''
                 \<longrightarrow> game_over g''))"
proof -
  have a: "play_turn ''take'' who g = Inr (take_branch g)"
    using play_turn_take_accepted [OF assms] .
  have b: "game_over (take_branch g) = game_over g \<and> leaderboard (take_branch g) = leaderboard g"
    if "deck g \<noteq> []"
    using that by (simp add: game_over_take_branch leaderboard_take_branch)
  have c: "game_over (take_branch g)
          \<and> length (leaderboard (take_branch g)) = length (players (take_branch g))
          \<and> mset (leaderboard (take_branch g)) = mset (map entry_of (players (take_branch g)))
          \<and> (\<forall>p. final_score (entry_of p) = calculate_score (cards p) - chips p
                 \<and> entry_name (entry_of p) = name p)
          \<and> sorted (map final_score (leaderboard (take_branch g)))
          \<and> (\<forall>k. filter (\<lambda>e. final_score e = k) (leaderboard (take_branch g))
                  = filter (\<lambda>e. final_score e = k) (map entry_of (players (take_branch g))))
          \<and> (\<forall>action' who' g''. play_turn action' who' (take_branch g) = Inr g''
                 \<longrightarrow> game_over g'')
          \<and> (\<forall>calls g''. run_turns calls (take_branch g) = Inr g''
                 \<longrightarrow> game_over g'')"
    if d: "deck g = []"
  proof -
    have over: "game_over (take_branch g)" using d by (simp add: game_over_take_branch)
    have lb: "leaderboard (take_branch g)
              = sort_key final_score (map entry_of (players (take_branch g)))"
      using d by (simp add: leaderboard_take_branch)
    have "\<forall>p. final_score (entry_of p) = calculate_score (cards p) - chips p
                 \<and> entry_name (entry_of p) = name p"
      by (simp add: entry_of_def Let_def)
    moreover have "\<forall>k. filter (\<lambda>e. final_score e = k) (leaderboard (take_branch g))
                  = filter (\<lambda>e. final_score e = k) (map entry_of (players (take_branch g)))"
      unfolding lb by (simp only: sort_key_stable) simp
    moreover have "\<forall>action' who' g''. play_turn action' who' (take_branch g) = Inr g''
                 \<longrightarrow> game_over g''"
      using game_over_stays [OF over] by blast
    moreover have "\<forall>calls g''. run_turns calls (take_branch g) = Inr g''
                 \<longrightarrow> game_over g''"
      using game_over_run [OF over] by blast
    moreover have "sorted (map final_score (leaderboard (take_branch g)))"
      unfolding lb by (rule sorted_sort_key)
    moreover have "length (leaderboard (take_branch g)) = length (players (take_branch g))"
      unfolding lb by simp
    moreover have "mset (leaderboard (take_branch g)) = mset (map entry_of (players (take_branch g)))"
      unfolding lb by simp
    ultimately show ?thesis using over by blast
  qed
  from a b c show ?thesis by blast
qed

theorem take_with_empty_deck_ends_game_witness:
  "current_player_idx example_last_card < length (players example_last_card)
   \<and> deck example_last_card = []
   \<and> play_turn ''take'' (Some ''Bob'') example_last_card = Inr (take_branch example_last_card)
   \<and> game_over (take_branch example_last_card)
   \<and> length (leaderboard (take_branch example_last_card)) = 2
   \<and> map entry_name (leaderboard (take_branch example_last_card)) = [''Ann'', ''Bob'']
   \<and> map final_score (leaderboard (take_branch example_last_card)) = [2, 4]
   \<and> run_turns [(''pass'', None), (''take'', Some ''Bob''), (''take'', None)]
         (take_branch example_last_card) = Inr example_after_end
   \<and> game_over example_after_end"
proof -
  have h1: "current_player_idx example_last_card < length (players example_last_card)"
    by (simp add: example_last_card_def)
  have h2: "\<not> (truthy (Some ''Bob'')
      \<and> Some (name (players example_last_card ! current_player_idx example_last_card))
          \<noteq> Some ''Bob'')"
    by (simp add: example_last_card_def)
  have h3: "deck example_last_card = []" by (simp add: example_last_card_def)
  have h4: "map entry_name (leaderboard (take_branch example_last_card)) = [''Ann'', ''Bob'']"
    by (simp add: example_last_card_def take_branch_def end_game_def entry_of_def
        calculate_score_def Let_def)
  have h5: "map final_score (leaderboard (take_branch example_last_card)) = [2, 4]"
    by (simp add: example_last_card_def take_branch_def end_game_def entry_of_def
        calculate_score_def Let_def)
  have h6: "length (players (take_branch example_last_card)) = 2"
    by (simp add: example_last_card_def players_take_branch)
  have h7: "run_turns [(''pass'', None), (''take'', Some ''Bob''), (''take'', None)]
         (take_branch example_last_card) = Inr example_after_end"
    by code_simp
  note t = take_with_empty_deck_ends_game [OF h1 h2]
  from t h3 h6
  have a: "play_turn ''take'' (Some ''Bob'') example_last_card = Inr (take_branch example_last_card)
        \<and> game_over (take_branch example_last_card)
        \<and> length (leaderboard (take_branch example_last_card)) = 2"
    by simp
  from t h3 h7 have b: "game_over example_after_end" by blast
  from a b h1 h3 h4 h5 h7 show ?thesis by blast
qed

text \<open>
  C9 as stated fails. Ann takes the 5 while one card is in the draw pile: the take
  empties the draw pile (the 7 is revealed), and the game is not over and the
  leaderboard is still empty.
\<close>

theorem take_emptying_deck_counterexample:
  "deck example_game = [7]
   \<and> play_turn ''take'' (Some ''Ann'') example_game = Inr (take_branch example_game)
   \<and> deck (take_branch example_game) = []
   \<and> \<not> game_over (take_branch example_game)
   \<and> leaderboard (take_branch example_game) = []"
  by (simp add: example_game_def play_turn_def truthy_def take_branch_def Let_def)

section \<open>BidWiser: what a round resolution changes\<close>

lemma resolve_round_Inr:
  assumes "resolve_round g = Inr g'"
  obtains c1 c2 where "p1_move g = Some c1" and "p2_move g = Some c2"
  using assms by (auto simp: resolve_round_def split: option.splits)

lemma resolve_round_frame:
  assumes "resolve_round g = Inr g'"
  shows "p1_name g' = p1_name g \<and> p2_name g' = p2_name g \<and> p2_is_bot g' = p2_is_bot g
       \<and> bot g' = bot g \<and> p1_move g' = None \<and> p2_move g' = None"
  using assms
  by (auto simp: resolve_round_def resolve_round_logic_def Let_def
      split: option.splits list.splits if_splits prod.splits)

lemma resolve_round_hands:
  assumes "resolve_round g = Inr g'" and "p1_move g = Some c1" and "p2_move g = Some c2"
  shows "p1_hand g' = remove1 c1 (p1_hand g) \<and> p2_hand g' = remove1 c2 (p2_hand g)"
  using assms
  by (auto simp: resolve_round_def resolve_round_logic_def Let_def
      split: option.splits list.splits if_splits prod.splits)

lemma resolve_round_history:
  assumes "resolve_round g = Inr g'" and "p1_move g = Some c1" and "p2_move g = Some c2"
  shows "\<exists>label. round_history g' =
           round_history g @ [\<lparr>prize = current_prize g, p1_card = c1, p2_card = c2,
                                result = label\<rparr>]"
  using assms
  by (auto simp: resolve_round_def resolve_round_logic_def Let_def
      split: option.splits list.splits if_splits prod.splits)

lemma resolve_round_queue:
  assumes "resolve_round g = Inr g'"
  shows "(prizes g = [] \<longrightarrow> bw_game_over g' \<and> current_prize g' = 0 \<and> prizes g' = [])
       \<and> (prizes g \<noteq> [] \<longrightarrow> bw_game_over g' = bw_game_over g
              \<and> current_prize g' = hd (prizes g) \<and> prizes g' = tl (prizes g))"
  using assms
  by (auto simp: resolve_round_def resolve_round_logic_def Let_def
      split: option.splits list.splits if_splits prod.splits)

lemma resolve_round_carry:
  assumes "resolve_round g = Inr g'" and "p1_move g = Some c1" and "p2_move g = Some c2"
  shows "carry_over_pot g' =
           (if c1 = c2 \<and> prizes g \<noteq> [] then carry_over_pot g + current_prize g else 0)"
  using assms
  by (auto simp: resolve_round_def resolve_round_logic_def Let_def
      split: option.splits list.splits if_splits prod.splits)

lemma resolve_round_scores_tie:
  assumes "resolve_round g = Inr g'" and "p1_move g = Some c" and "p2_move g = Some c"
  shows "p1_score g' = p1_score g + (if prizes g = [] then of_int (current_prize g + carry_over_pot g) / 2 else 0)
       \<and> p2_score g' = p2_score g + (if prizes g = [] then of_int (current_prize g + carry_over_pot g) / 2 else 0)"
  using assms
  by (auto simp: resolve_round_def resolve_round_logic_def Let_def
      split: option.splits list.splits if_splits prod.splits)

lemma resolve_round_scores_decisive:
  assumes "resolve_round g = Inr g'" and "p1_move g = Some c1" and "p2_move g = Some c2"
      and "c1 \<noteq> c2"
  shows "p1_score g' = p1_score g
            + (if c2 < c1 \<and> 0 < current_prize g + carry_over_pot g
               then of_int (current_prize g + carry_over_pot g) else 0)
       \<and> p2_score g' = p2_score g
            + (if c1 < c2 then of_int (current_prize g + carry_over_pot g) else 0)"
  using assms
  by (auto simp: resolve_round_def resolve_round_logic_def Let_def
      split: option.splits list.splits if_splits prod.splits)

text \<open>
  C7. In every round resolution: on a decisive round \<open>carry_over_pot\<close> is reset to 0;
  on a tie with prizes left it grows by exactly the current prize and no score changes;
  starting from a non-negative carry-over it can grow only on a tie; and on a tie with
  the prize queue exhausted each participant's score grows by exactly half the full pot
  (current prize plus carry-over, fractions allowed), the two gains sum to the full pot,
  the carry-over is reset to 0 and the game is over.
\<close>

theorem resolve_round_carry_over:
  assumes "resolve_round g = Inr g'"
  shows "\<exists>c1 c2. p1_move g = Some c1 \<and> p2_move g = Some c2
       \<and> (c1 \<noteq> c2 \<longrightarrow> carry_over_pot g' = 0)
       \<and> (c1 = c2 \<and> prizes g \<noteq> [] \<longrightarrow>
             carry_over_pot g' = carry_over_pot g + current_prize g
           \<and> p1_score g' = p1_score g \<and> p2_score g' = p2_score g)
       \<and> (0 \<le> carry_over_pot g \<and> carry_over_pot g < carry_over_pot g' \<longrightarrow> c1 = c2)
       \<and> (c1 = c2 \<and> prizes g = [] \<longrightarrow>
             p1_score g' = p1_score g + of_int (current_prize g + carry_over_pot g) / 2
           \<and> p2_score g' = p2_score g + of_int (current_prize g + carry_over_pot g) / 2
           \<and> (p1_score g' - p1_score g) + (p2_score g' - p2_score g)
               = of_int (current_prize g + carry_over_pot g)
           \<and> carry_over_pot g' = 0
           \<and> bw_game_over g')"
proof -
  from assms obtain c1 c2 where m: "p1_move g = Some c1" "p2_move g = Some c2"
    by (rule resolve_round_Inr)
  note carry = resolve_round_carry [OF assms m]
  have tie: "p1_score g' = p1_score g + (if prizes g = [] then of_int (current_prize g + carry_over_pot g) / 2 else 0)
       \<and> p2_score g' = p2_score g + (if prizes g = [] then of_int (current_prize g + carry_over_pot g) / 2 else 0)"
    if "c1 = c2"
    using resolve_round_scores_tie [OF assms, of c1] m that by simp
  have a: "c1 \<noteq> c2 \<longrightarrow> carry_over_pot g' = 0" using carry by simp
  have b: "c1 = c2 \<and> prizes g \<noteq> [] \<longrightarrow>
             carry_over_pot g' = carry_over_pot g + current_prize g
           \<and> p1_score g' = p1_score g \<and> p2_score g' = p2_score g"
    using carry tie by simp
  have c: "0 \<le> carry_over_pot g \<and> carry_over_pot g < carry_over_pot g' \<longrightarrow> c1 = c2"
    using carry by (auto split: if_splits)
  have d: "c1 = c2 \<and> prizes g = [] \<longrightarrow>
             p1_score g' = p1_score g + of_int (current_prize g + carry_over_pot g) / 2
           \<and> p2_score g' = p2_score g + of_int (current_prize g + carry_over_pot g) / 2
           \<and> (p1_score g' - p1_score g) + (p2_score g' - p2_score g)
               = of_int (current_prize g + carry_over_pot g)
           \<and> carry_over_pot g' = 0
           \<and> bw_game_over g'"
    using carry tie resolve_round_queue [OF assms] by simp
  from m a b c d show ?thesis by blast
qed

theorem resolve_round_carry_over_witness:
  "resolve_round example_final_tie =
     Inr (example_final_tie\<lparr>p1_hand := [], p2_hand := [], p1_score := 46, p2_score := 45,
            carry_over_pot := 0,
            round_history := [\<lparr>prize = 7, p1_card = 4, p2_card = 4, result = ''Split''\<rparr>],
            p1_move := None, p2_move := None, bw_game_over := True, current_prize := 0\<rparr>)
   \<and> p1_move example_final_tie = Some 4 \<and> p2_move example_final_tie = Some 4
   \<and> prizes example_final_tie = []
   \<and> of_int (current_prize example_final_tie + carry_over_pot example_final_tie) / 2 = (6 :: rat)"
proof -
  have h: "resolve_round example_final_tie =
     Inr (example_final_tie\<lparr>p1_hand := [], p2_hand := [], p1_score := 46, p2_score := 45,
            carry_over_pot := 0,
            round_history := [\<lparr>prize = 7, p1_card = 4, p2_card = 4, result = ''Split''\<rparr>],
            p1_move := None, p2_move := None, bw_game_over := True, current_prize := 0\<rparr>)"
    by (simp add: resolve_round_def resolve_round_logic_def example_final_tie_def Let_def)
  show ?thesis
    using h resolve_round_carry_over [OF h]
    by (simp add: example_final_tie_def)
qed

section \<open>SmartBot: the chosen card is a card of the hand\<close>

lemma min_utility_fold_not_MinusInf:
  "m \<noteq> MinusInf \<Longrightarrow>
   fold (\<lambda>p m. let t = Fin (f p) in if ext_less t m then t else m) ps m \<noteq> MinusInf"
  by (induction ps arbitrary: m) (simp_all add: Let_def)

lemma min_utility_not_MinusInf:
  "min_utility bh ph cp rp bs ps b \<noteq> MinusInf"
  unfolding min_utility_def by (rule min_utility_fold_not_MinusInf) simp

lemma ext_less_MinusInf: "m \<noteq> MinusInf \<Longrightarrow> ext_less MinusInf m"
  by (cases m) simp_all

lemma options_fold_subset:
  "set (snd (fold (\<lambda>b (mx, opts).
                 let m = u b
                 in if ext_less mx m then (m, [b])
                    else if m = mx then (mx, opts @ [b])
                    else (mx, opts)) cs (mx0, opts0)))
   \<subseteq> set opts0 \<union> set cs"
proof (induction cs arbitrary: mx0 opts0)
  case Nil
  show ?case by simp
next
  case (Cons c cs)
  show ?case
    using Cons.IH [of "u c" "[c]"] Cons.IH [of mx0 "opts0 @ [c]"] Cons.IH [of mx0 opts0]
    by (auto simp: Let_def)
qed

lemma options_fold_nonempty:
  "opts0 \<noteq> [] \<Longrightarrow>
   snd (fold (\<lambda>b (mx, opts).
                 let m = u b
                 in if ext_less mx m then (m, [b])
                    else if m = mx then (mx, opts @ [b])
                    else (mx, opts)) cs (mx0, opts0)) \<noteq> []"
proof (induction cs arbitrary: mx0 opts0)
  case Nil
  then show ?case by simp
next
  case (Cons c cs)
  show ?case
    using Cons.IH [of "[c]" "u c"] Cons.IH [of "opts0 @ [c]" mx0] Cons.IH [OF Cons.prems, of mx0]
    by (simp add: Let_def)
qed

lemma best_options_subset:
  "set (best_options bh ph cp rp bs ps) \<subseteq> set bh"
proof -
  have "set (best_options bh ph cp rp bs ps) \<subseteq> set [] \<union> set (rev (sort bh))"
    unfolding best_options_def by (rule options_fold_subset)
  then show ?thesis by simp
qed

lemma best_options_nonempty:
  assumes "bh \<noteq> []"
  shows "best_options bh ph cp rp bs ps \<noteq> []"
proof -
  from assms have "rev (sort bh) \<noteq> []"
    by (metis length_0_conv length_rev length_sort)
  then obtain c cs where cs: "rev (sort bh) = c # cs" by (cases "rev (sort bh)") auto
  have first: "ext_less MinusInf (min_utility bh ph cp rp bs ps c)"
    by (rule ext_less_MinusInf) (rule min_utility_not_MinusInf)
  show ?thesis
    unfolding best_options_def cs
    using first options_fold_nonempty [of "[c]" "min_utility bh ph cp rp bs ps" cs
        "min_utility bh ph cp rp bs ps c"]
    by (simp add: Let_def)
qed

lemma minimax_move_in_hand:
  assumes "bh \<noteq> []"
  shows "\<exists>c. minimax_move r bh ph cp rp bs ps = Inr c \<and> c \<in> set bh"
proof -
  let ?opts = "best_options bh ph cp rp bs ps"
  have ne: "?opts \<noteq> []" using best_options_nonempty [OF assms] .
  then have "choice_idx r mod length ?opts < length ?opts" by simp
  then have "?opts ! (choice_idx r mod length ?opts) \<in> set ?opts" by (rule nth_mem)
  with best_options_subset have "?opts ! (choice_idx r mod length ?opts) \<in> set bh" by blast
  with ne assms show ?thesis
    by (cases bh) (simp_all add: minimax_move_def Let_def)
qed

lemma heuristic_fold_in:
  "snd (fold (\<lambda>(k, my_card) (best_ev, best_card).
                 let ev = Fin (expected_value ph cp my_card + jitter r k)
                 in if ext_less best_ev ev then (ev, my_card)
                    else (best_ev, best_card)) zs (ev0, c0))
   \<in> insert c0 (snd ` set zs)"
proof (induction zs arbitrary: ev0 c0)
  case Nil
  show ?case by simp
next
  case (Cons z zs)
  obtain k c where z: "z = (k, c)" by (cases z)
  show ?case
    using Cons.IH [of "Fin (expected_value ph cp c + jitter r k)" c] Cons.IH [of ev0 c0]
    by (auto simp: z Let_def)
qed

lemma snd_zip_subset: "snd ` set (zip xs ys) \<subseteq> set ys"
proof
  fix y assume "y \<in> snd ` set (zip xs ys)"
  then obtain x where "(x, y) \<in> set (zip xs ys)" by force
  then show "y \<in> set ys" by (rule set_zip_rightD)
qed

lemma heuristic_move_Cons:
  "heuristic_move r (first # rest) ph cp =
      Inr (snd (fold (\<lambda>(k, my_card) (best_ev, best_card).
                 let ev = Fin (expected_value ph cp my_card + jitter r k)
                 in if ext_less best_ev ev then (ev, my_card)
                    else (best_ev, best_card))
             (zip [0..<length (first # rest)] (first # rest)) (MinusInf, first)))"
  unfolding heuristic_move_def by (simp only: list.case)

lemma heuristic_move_in_hand:
  assumes "bh \<noteq> []"
  shows "\<exists>c. heuristic_move r bh ph cp = Inr c \<and> c \<in> set bh"
proof -
  from assms obtain first rest where bh: "bh = first # rest" by (cases bh) auto
  define zs where "zs = zip [0..<length (first # rest)] (first # rest)"
  define v where
    "v = snd (fold (\<lambda>(k, my_card) (best_ev, best_card).
                 let ev = Fin (expected_value ph cp my_card + jitter r k)
                 in if ext_less best_ev ev then (ev, my_card)
                    else (best_ev, best_card)) zs (MinusInf, first))"
  have "v \<in> insert first (snd ` set zs)"
    unfolding v_def by (rule heuristic_fold_in)
  moreover have "snd ` set zs \<subseteq> set (first # rest)"
    unfolding zs_def by (rule snd_zip_subset)
  moreover have "first \<in> set (first # rest)" by simp
  ultimately have mem: "v \<in> set (first # rest)" by blast
  have res: "heuristic_move r (first # rest) ph cp = Inr v"
    unfolding v_def zs_def by (rule heuristic_move_Cons)
  show ?thesis
  proof (intro exI conjI)
    show "heuristic_move r bh ph cp = Inr v" using res by (simp only: bh)
    show "v \<in> set bh" using mem by (simp only: bh)
  qed
qed

lemma decide_move_in_hand:
  assumes "bh \<noteq> []"
  shows "\<exists>c. decide_move r bh ph cp rp bs ps = Inr c \<and> c \<in> set bh"
  unfolding decide_move_def
  using minimax_move_in_hand [OF assms] heuristic_move_in_hand [OF assms] by simp

lemma decide_move_dispatch:
  "decide_move r bh ph cp rp bs ps =
     (if length bh \<le> 6 then minimax_move r bh ph cp rp bs ps
      else heuristic_move r bh ph cp)"
  by (simp add: decide_move_def)

section \<open>BidWiser: the invariant of the engine\<close>

lemma new_smartbot_keys: "dom (map_of (opponent_history new_smartbot)) = {1..13}"
  by (simp add: new_smartbot_def dom_map_of_conv_image_fst image_image)

lemma init_bidwiser_invariant:
  assumes "init_bidwiser human_players shuffled = Inr g0"
      and "mset shuffled = mset [1..13]"
  shows "hands_invariant g0 \<and> moves_in_hand g0 \<and> awaiting_moves g0 \<and> \<not> bw_game_over g0"
proof -
  from assms(1) obtain host others first_prize rest where
    hp: "human_players = host # others" and sh: "shuffled = first_prize # rest" and
    g0: "g0 = \<lparr>prizes = rest, p1_name = host, p1_hand = [1..13], p1_score = 0,
                    p1_move = None,
                    p2_name = (case others of [] \<Rightarrow> ''DeepGoof (Bot)'' | n # _ \<Rightarrow> n),
                    p2_is_bot = (others = []),
                    bot = (case others of [] \<Rightarrow> Some new_smartbot | _ # _ \<Rightarrow> None),
                    p2_hand = [1..13], p2_score = 0, p2_move = None,
                    carry_over_pot = 0, round_history = [],
                    current_prize = first_prize, bw_game_over = False\<rparr>"
    by (auto simp: init_bidwiser_def split: list.splits)
  from assms(2) have "set shuffled = set [1..13]" by (rule mset_eq_setD)
  then have s: "set shuffled = {1..13}" by simp
  from assms(2) have "length shuffled = length [1..13 :: int]" by (rule mset_eq_length)
  then have l: "length rest = 12" by (simp add: sh)
  from s sh have f: "first_prize \<in> {1..13}" and r: "set rest \<subseteq> {1..13}" by auto
  have h: "hands_invariant g0"
    using l f r new_smartbot_keys by (auto simp: hands_invariant_def g0)
  have "moves_in_hand g0" "awaiting_moves g0" "\<not> bw_game_over g0"
    by (simp_all add: moves_in_hand_def awaiting_moves_def g0)
  with h show ?thesis by blast
qed

lemma note_move_fields [simp]:
  "p1_hand (note_move who crd g) = p1_hand g"
  "p2_hand (note_move who crd g) = p2_hand g"
  "round_history (note_move who crd g) = round_history g"
  "prizes (note_move who crd g) = prizes g"
  "current_prize (note_move who crd g) = current_prize g"
  "carry_over_pot (note_move who crd g) = carry_over_pot g"
  "bw_game_over (note_move who crd g) = bw_game_over g"
  "p2_is_bot (note_move who crd g) = p2_is_bot g"
  "bot (note_move who crd g) = bot g"
  "p1_name (note_move who crd g) = p1_name g"
  "p2_name (note_move who crd g) = p2_name g"
  "p1_score (note_move who crd g) = p1_score g"
  "p2_score (note_move who crd g) = p2_score g"
  by (simp_all add: note_move_def)

lemma note_move_hands_invariant:
  "hands_invariant (note_move who crd g) = hands_invariant g"
  by (simp add: hands_invariant_def)

lemma note_move_moves_in_hand:
  "moves_in_hand g \<Longrightarrow> moves_in_hand (note_move who crd g)"
  by (auto simp: moves_in_hand_def note_move_def)

lemma note_move_bot_game:
  "p2_is_bot g \<Longrightarrow> p2_move (note_move who crd g) = p2_move g"
  by (simp add: note_move_def)

lemma note_move_skip:
  assumes "(who \<noteq> p1_name g \<and> who \<noteq> p2_name g)
         \<or> (who = p1_name g \<and> crd \<notin> set (p1_hand g))
         \<or> (who \<noteq> p1_name g \<and> who = p2_name g \<and> crd \<notin> set (p2_hand g))"
  shows "note_move who crd g = g"
  using assms by (auto simp: note_move_def)

lemma decide_move_Inr_mem:
  assumes "decide_move r bh ph cp rp bs ps = Inr c"
  shows "c \<in> set bh"
proof (cases "bh = []")
  case True
  with assms show ?thesis by (simp add: decide_move_def minimax_move_def)
next
  case False
  from decide_move_in_hand [OF False, of r ph cp rp bs ps] assms show ?thesis by auto
qed

lemma record_move_keys:
  assumes "record_move k m b = Inr b'"
  shows "dom (map_of (opponent_history b)) \<subseteq> dom (map_of (opponent_history b'))"
  using assms
  by (auto simp: record_move_def update_conv' split: option.splits)

lemma record_move_ok:
  assumes "k \<in> dom (map_of (opponent_history b))"
  shows "\<exists>b'. record_move k m b = Inr b'"
  using assms by (auto simp: record_move_def split: option.splits)

lemma bot_reply_Inr:
  assumes "bot_reply r m g = Inr g2"
  obtains c b b' where "bot g = Some b"
    and "decide_move r (p2_hand g) (p1_hand g) (current_prize g + carry_over_pot g)
           (prizes g) (p2_score g) (p1_score g) = Inr c"
    and "record_move (current_prize g) m b = Inr b'"
    and "g2 = g\<lparr>p2_move := Some c, bot := Some b'\<rparr>"
  using assms
  by (auto simp: bot_reply_def Let_def split: option.splits sum.splits)

lemma bot_reply_invariant:
  assumes "bot_reply r m g = Inr g2" and "hands_invariant g" and "moves_in_hand g"
  shows "hands_invariant g2 \<and> moves_in_hand g2 \<and> p1_move g2 = p1_move g
       \<and> p2_move g2 \<noteq> None \<and> bw_game_over g2 = bw_game_over g"
proof -
  from assms(1) obtain c b b' where b: "bot g = Some b"
    and d: "decide_move r (p2_hand g) (p1_hand g) (current_prize g + carry_over_pot g)
           (prizes g) (p2_score g) (p1_score g) = Inr c"
    and rm: "record_move (current_prize g) m b = Inr b'"
    and g2: "g2 = g\<lparr>p2_move := Some c, bot := Some b'\<rparr>"
    by (rule bot_reply_Inr)
  from decide_move_Inr_mem [OF d] have c: "c \<in> set (p2_hand g)" .
  have "{1..13} \<subseteq> dom (map_of (opponent_history b))" if "p2_is_bot g"
    using assms(2) b that by (simp add: hands_invariant_def)
  with record_move_keys [OF rm]
  have keys: "p2_is_bot g \<longrightarrow> {1..13} \<subseteq> dom (map_of (opponent_history b'))"
    by blast
  have "hands_invariant g2"
    using assms(2) keys by (simp add: hands_invariant_def g2)
  moreover from assms(3) c have "moves_in_hand g2"
    by (simp add: moves_in_hand_def g2)
  ultimately show ?thesis by (simp add: g2)
qed

lemma bot_reply_ok:
  assumes "hands_invariant g" and "\<not> bw_game_over g" and "p2_is_bot g"
  shows "\<exists>g2. bot_reply r m g = Inr g2"
proof -
  from assms obtain b where b: "bot g = Some b"
    and k: "{1..13} \<subseteq> dom (map_of (opponent_history b))"
    and cp: "current_prize g \<in> {1..13}"
    and l: "length (p2_hand g) = Suc (length (prizes g))"
    by (auto simp: hands_invariant_def)
  from l have "p2_hand g \<noteq> []" by auto
  from decide_move_in_hand [OF this]
  obtain c where d: "decide_move r (p2_hand g) (p1_hand g) (current_prize g + carry_over_pot g)
           (prizes g) (p2_score g) (p1_score g) = Inr c" by blast
  from k cp have "current_prize g \<in> dom (map_of (opponent_history b))" by blast
  from record_move_ok [OF this] obtain b' where "record_move (current_prize g) m b = Inr b'"
    by blast
  with b d show ?thesis by (simp add: bot_reply_def Let_def)
qed

section \<open>BidWiser: the invariant is kept by every call\<close>

lemma resolve_round_ok:
  assumes "p1_move g = Some c1" and "p2_move g = Some c2"
  shows "\<exists>g'. resolve_round g = Inr g'"
  using assms
  by (simp add: resolve_round_def resolve_round_logic_def Let_def
      split: list.splits prod.splits)

lemma played_card_fresh:
  assumes "distinct (map f hist)" and "set (map f hist) \<inter> set hand = {}"
      and "distinct hand" and "c \<in> set hand" and "f e = c"
  shows "distinct (map f (hist @ [e]))
       \<and> set (map f (hist @ [e])) \<inter> set (remove1 c hand) = {}"
  using assms by auto

lemma resolve_round_invariant:
  assumes rr: "resolve_round g = Inr g'" and hi: "hands_invariant g"
      and mi: "moves_in_hand g" and no: "\<not> bw_game_over g"
  shows "hands_invariant g' \<and> moves_in_hand g' \<and> awaiting_moves g'"
proof -
  from rr obtain c1 c2 where m: "p1_move g = Some c1" "p2_move g = Some c2"
    by (rule resolve_round_Inr)
  from mi m have c1: "c1 \<in> set (p1_hand g)" and c2: "c2 \<in> set (p2_hand g)"
    by (simp_all add: moves_in_hand_def)
  note hands = resolve_round_hands [OF rr m]
  from resolve_round_history [OF rr m] obtain label where
    hist: "round_history g' =
           round_history g @ [\<lparr>prize = current_prize g, p1_card = c1, p2_card = c2,
                                result = label\<rparr>]" by blast
  note queue = resolve_round_queue [OF rr]
  note carry = resolve_round_carry [OF rr m]
  note frame = resolve_round_frame [OF rr]
  from hi have d1: "distinct (p1_hand g)" and d2: "distinct (p2_hand g)"
    and h1: "distinct (map p1_card (round_history g))"
    and h2: "distinct (map p2_card (round_history g))"
    and i1: "set (map p1_card (round_history g)) \<inter> set (p1_hand g) = {}"
    and i2: "set (map p2_card (round_history g)) \<inter> set (p2_hand g) = {}"
    and len: "length (p1_hand g) = length (p2_hand g)"
    and sub: "set (prizes g) \<subseteq> {1..13}"
    and cr: "0 \<le> carry_over_pot g"
    and bt: "p2_is_bot g \<longrightarrow>
            (\<exists>b. bot g = Some b \<and> {1..13} \<subseteq> dom (map_of (opponent_history b)))"
    by (simp_all add: hands_invariant_def)
  from hi no have l2: "length (p2_hand g) = Suc (length (prizes g))"
    and cp: "current_prize g \<in> {1..13}"
    by (simp_all add: hands_invariant_def)
  have e1: "p1_card \<lparr>prize = current_prize g, p1_card = c1, p2_card = c2,
                        result = label\<rparr> = c1" by simp
  have e2: "p2_card \<lparr>prize = current_prize g, p1_card = c1, p2_card = c2,
                        result = label\<rparr> = c2" by simp
  have a1: "distinct (map p1_card (round_history g'))
       \<and> set (map p1_card (round_history g')) \<inter> set (p1_hand g') = {}"
    using played_card_fresh [OF h1 i1 d1 c1 e1] hands by (simp only: hist)
  have a2: "distinct (map p2_card (round_history g'))
       \<and> set (map p2_card (round_history g')) \<inter> set (p2_hand g') = {}"
    using played_card_fresh [OF h2 i2 d2 c2 e2] hands by (simp only: hist)
  have a3: "distinct (p1_hand g') \<and> distinct (p2_hand g')"
    using hands d1 d2 by simp
  have a4: "length (p1_hand g') = length (p2_hand g')"
    using hands len c1 c2 by (simp add: length_remove1)
  have a5: "\<not> bw_game_over g' \<longrightarrow>
            length (p2_hand g') = Suc (length (prizes g')) \<and> current_prize g' \<in> {1..13}"
  proof (cases "prizes g")
    case Nil
    with queue show ?thesis by simp
  next
    case (Cons p rest)
    with queue have "current_prize g' = p" "prizes g' = rest" by simp_all
    moreover from Cons sub have "p \<in> {1..13}" by simp
    moreover from hands c2 l2 Cons have "length (p2_hand g') = Suc (length rest)"
      by (simp add: length_remove1)
    ultimately show ?thesis by simp
  qed
  have a6: "set (prizes g') \<subseteq> {1..13}"
  proof (cases "prizes g")
    case Nil
    with queue show ?thesis by simp
  next
    case (Cons p rest)
    with queue sub show ?thesis by auto
  qed
  have a7: "0 \<le> carry_over_pot g'"
    using carry cr cp by (simp split: if_splits)
  have a8: "p2_is_bot g' \<longrightarrow>
            (\<exists>b. bot g' = Some b \<and> {1..13} \<subseteq> dom (map_of (opponent_history b)))"
    using bt frame by simp
  have "hands_invariant g'"
    unfolding hands_invariant_def using a1 a2 a3 a4 a5 a6 a7 a8 by blast
  moreover have "moves_in_hand g'" "awaiting_moves g'"
    using frame by (simp_all add: moves_in_hand_def awaiting_moves_def)
  ultimately show ?thesis by blast
qed

text \<open>The shape of a \<open>register_move\<close> call on a running game in a state between rounds.\<close>

lemma register_move_running:
  assumes hi: "hands_invariant g" and mi: "moves_in_hand g" and aw: "awaiting_moves g"
      and no: "\<not> bw_game_over g"
  obtains (waiting) "register_move r who crd g = Inr (True, note_move who crd g)"
      "p1_move (note_move who crd g) = None \<or> p2_move (note_move who crd g) = None"
      "p2_is_bot g \<longrightarrow> p1_move (note_move who crd g) = None"
    | (resolved) g2 g' where "register_move r who crd g = Inr (True, g')"
      "resolve_round g2 = Inr g'" "hands_invariant g2" "moves_in_hand g2"
      "\<not> bw_game_over g2" "p1_hand g2 = p1_hand g" "p2_hand g2 = p2_hand g"
      "round_history g2 = round_history g" "current_prize g2 = current_prize g"
      "p1_move (note_move who crd g) \<noteq> None"
      "\<not> p2_is_bot g \<longrightarrow> p2_move (note_move who crd g) \<noteq> None"
proof -
  let ?g1 = "note_move who crd g"
  have hi1: "hands_invariant ?g1" using hi by (simp add: note_move_hands_invariant)
  have mi1: "moves_in_hand ?g1" using mi by (rule note_move_moves_in_hand)
  have no1: "\<not> bw_game_over ?g1" using no by simp
  show thesis
  proof (cases "p2_is_bot g")
    case True
    then have p2: "p2_move ?g1 = p2_move g" by (rule note_move_bot_game)
    show ?thesis
    proof (cases "p1_move ?g1")
      case None
      with True no have "register_move r who crd g = Inr (True, ?g1)"
        by (simp add: register_move_def Let_def)
      with None show ?thesis by (intro waiting) simp_all
    next
      case (Some m)
      from True have bot1: "p2_is_bot ?g1" by simp
      from bot_reply_ok [OF hi1 no1 bot1] obtain g2 where br: "bot_reply r m ?g1 = Inr g2"
        by blast
      from bot_reply_invariant [OF br hi1 mi1]
      have hi2: "hands_invariant g2" and mi2: "moves_in_hand g2"
        and m1: "p1_move g2 = p1_move ?g1" and m2: "p2_move g2 \<noteq> None"
        and no2: "\<not> bw_game_over g2"
        using no by simp_all
      from m1 Some have m1': "p1_move g2 = Some m" by simp
      from m2 obtain c where m2': "p2_move g2 = Some c" by blast
      from resolve_round_ok [OF m1' m2'] obtain g' where rr: "resolve_round g2 = Inr g'"
        by blast
      from br have same: "p1_hand g2 = p1_hand g" "p2_hand g2 = p2_hand g"
        "round_history g2 = round_history g" "current_prize g2 = current_prize g"
        by (auto elim!: bot_reply_Inr)
      from True no Some br m1' m2' rr
      have "register_move r who crd g = Inr (True, g')"
        by (simp add: register_move_def Let_def)
      moreover have "p1_move ?g1 \<noteq> None"
        "\<not> p2_is_bot g \<longrightarrow> p2_move ?g1 \<noteq> None"
        using Some True by simp_all
      ultimately show ?thesis using rr hi2 mi2 no2 same by (intro resolved)
    qed
  next
    case False
    show ?thesis
    proof (cases "p1_move ?g1 \<noteq> None \<and> p2_move ?g1 \<noteq> None")
      case True
      then obtain c1 c2 where "p1_move ?g1 = Some c1" "p2_move ?g1 = Some c2" by blast
      from resolve_round_ok [OF this] obtain g' where rr: "resolve_round ?g1 = Inr g'"
        by blast
      from False no True rr have "register_move r who crd g = Inr (True, g')"
        by (simp add: register_move_def Let_def)
      then show ?thesis using rr hi1 mi1 no1
      proof (rule resolved)
        show "p1_move ?g1 \<noteq> None" using True by simp
        show "\<not> p2_is_bot g \<longrightarrow> p2_move ?g1 \<noteq> None" using True by simp
      qed simp_all
    next
      case nb: False
      with False no have "register_move r who crd g = Inr (True, ?g1)"
        by (auto simp: register_move_def Let_def)
      with nb False show ?thesis by (intro waiting) auto
    qed
  qed
qed

lemma register_move_invariant:
  assumes "between_rounds g" and "register_move r who crd g = Inr (changed, g')"
  shows "between_rounds g'"
proof (cases "bw_game_over g")
  case True
  with assms show ?thesis by (simp add: register_move_def)
next
  case False
  from assms(1) have hi: "hands_invariant g" and mi: "moves_in_hand g"
    and aw: "awaiting_moves g" by (simp_all add: between_rounds_def)
  from hi mi aw False show ?thesis
  proof (cases rule: register_move_running [where r = r and who = who and crd = crd])
    case waiting
    with assms(2) have g': "g' = note_move who crd g" by simp
    have "awaiting_moves g'"
      unfolding g' awaiting_moves_def using waiting(2,3) by simp
    moreover have "hands_invariant g'"
      unfolding g' using hi by (simp add: note_move_hands_invariant)
    moreover have "moves_in_hand g'"
      unfolding g' using mi by (rule note_move_moves_in_hand)
    ultimately show ?thesis by (simp add: between_rounds_def)
  next
    case (resolved g2 g3)
    with assms(2) have "g' = g3" by simp
    with resolve_round_invariant [OF resolved(2,3,4,5)] show ?thesis
      by (simp add: between_rounds_def)
  qed
qed

lemma run_moves_invariant:
  assumes "between_rounds g0" and "run_moves calls g0 = Inr g"
  shows "between_rounds g"
  using assms
proof (induction calls arbitrary: g0)
  case Nil
  then show ?case by simp
next
  case (Cons call calls)
  obtain r who crd where call: "call = (r, who, crd)" by (cases call)
  with Cons.prems(2) obtain changed g1 where
    s: "register_move r who crd g0 = Inr (changed, g1)" and n: "run_moves calls g1 = Inr g"
    by (auto split: sum.splits prod.splits)
  from Cons.IH [OF register_move_invariant [OF Cons.prems(1) s] n] show ?case .
qed

lemma reachable_between_rounds:
  assumes "init_bidwiser human_players shuffled = Inr g0"
      and "mset shuffled = mset [1..13]"
      and "run_moves calls g0 = Inr g"
  shows "between_rounds g"
proof -
  from init_bidwiser_invariant [OF assms(1,2)] have "between_rounds g0"
    by (simp add: between_rounds_def)
  from run_moves_invariant [OF this assms(3)] show ?thesis .
qed

section \<open>BidWiser: the return value of a call\<close>

text \<open>
  C10. In every state reached from the constructor by \<open>register_move\<close> calls: once
  \<open>game_over\<close> is set, \<open>register_move\<close> returns False and leaves the engine
  unchanged; while the game is running it returns True (it never raises), and a call
  whose name is neither participant's, or whose card is not in the caller's hand,
  records no move and changes nothing.
\<close>

theorem register_move_return_value:
  assumes "init_bidwiser human_players shuffled = Inr g0"
      and "mset shuffled = mset [1..13]"
      and "run_moves calls g0 = Inr g"
  shows "(bw_game_over g \<longrightarrow> register_move r who crd g = Inr (False, g))
       \<and> (\<not> bw_game_over g \<longrightarrow> (\<exists>g'. register_move r who crd g = Inr (True, g')))
       \<and> (\<not> bw_game_over g
            \<and> ((who \<noteq> p1_name g \<and> who \<noteq> p2_name g)
               \<or> (who = p1_name g \<and> crd \<notin> set (p1_hand g))
               \<or> (who \<noteq> p1_name g \<and> who = p2_name g \<and> crd \<notin> set (p2_hand g)))
          \<longrightarrow> register_move r who crd g = Inr (True, g))"
proof -
  from reachable_between_rounds [OF assms]
  have hi: "hands_invariant g" and mi: "moves_in_hand g" and aw: "awaiting_moves g"
    by (simp_all add: between_rounds_def)
  have over: "register_move r who crd g = Inr (False, g)" if "bw_game_over g"
    using that by (simp add: register_move_def)
  have running: "\<exists>g'. register_move r who crd g = Inr (True, g')" if no: "\<not> bw_game_over g"
    using hi mi aw no
    by (cases rule: register_move_running [where r = r and who = who and crd = crd]) blast+
  have skip: "register_move r who crd g = Inr (True, g)"
    if no: "\<not> bw_game_over g"
      and w: "(who \<noteq> p1_name g \<and> who \<noteq> p2_name g)
               \<or> (who = p1_name g \<and> crd \<notin> set (p1_hand g))
               \<or> (who \<noteq> p1_name g \<and> who = p2_name g \<and> crd \<notin> set (p2_hand g))"
  proof -
    have same: "note_move who crd g = g" using w by (rule note_move_skip)
    from hi mi aw no show ?thesis
    proof (cases rule: register_move_running [where r = r and who = who and crd = crd])
      case waiting
      then show ?thesis by (simp add: same)
    next
      case (resolved g2 g')
      from resolved(10,11) aw have False
        by (auto simp: same awaiting_moves_def)
      then show ?thesis ..
    qed
  qed
  from over running skip show ?thesis by blast
qed

section \<open>BidWiser: evaluated games\<close>

lemma example_bid_init:
  "init_bidwiser [''Ann'', ''Bob''] [1..13] = Inr example_bid_start"
  by code_simp

lemma example_bid_run:
  "run_moves [(example_rand, ''Ann'', 5)] example_bid_start = Inr example_bid_waiting"
  by code_simp

lemma example_bid_resolve:
  "register_move example_rand ''Bob'' 9 example_bid_waiting = Inr (True, example_bid_round1)"
  by code_simp

section \<open>BidWiser: what a call does to the hands\<close>

lemma note_move_p1: "p1_move (note_move who crd g) = registered_p1 who crd g"
  by (simp add: note_move_def registered_p1_def)

lemma note_move_p2: "p2_move (note_move who crd g) = registered_p2 who crd g"
  by (auto simp: note_move_def registered_p2_def)

lemma round_resolvedI:
  assumes rr: "resolve_round g2 = Inr g'"
      and m: "p1_move g2 = Some c1" "p2_move g2 = Some c2"
      and mi: "moves_in_hand g2"
      and same: "p1_hand g2 = p1_hand g" "p2_hand g2 = p2_hand g"
        "round_history g2 = round_history g" "current_prize g2 = current_prize g"
  shows "round_resolved g c1 c2 g'"
proof -
  from mi m same have c1: "c1 \<in> set (p1_hand g)" and c2: "c2 \<in> set (p2_hand g)"
    by (auto simp: moves_in_hand_def)
  from resolve_round_hands [OF rr m] same
  have h1: "p1_hand g' = remove1 c1 (p1_hand g)" and h2: "p2_hand g' = remove1 c2 (p2_hand g)"
    by simp_all
  from resolve_round_history [OF rr m] same obtain label where
    hist: "round_history g' =
             round_history g @ [\<lparr>prize = current_prize g, p1_card = c1, p2_card = c2,
                                  result = label\<rparr>]"
    by auto
  have m1: "mset (p1_hand g) = add_mset c1 (mset (p1_hand g'))" using c1 by (simp add: h1)
  have m2: "mset (p2_hand g) = add_mset c2 (mset (p2_hand g'))" using c2 by (simp add: h2)
  from resolve_round_frame [OF rr] have fr: "p1_move g' = None" "p2_move g' = None"
    by simp_all
  show ?thesis
    unfolding round_resolved_def using c1 c2 h1 h2 m1 m2 fr by (simp add: hist)
qed

lemma register_move_human:
  assumes "\<not> bw_game_over g" and "\<not> p2_is_bot g"
  shows "register_move r who crd g =
     (if p1_move (note_move who crd g) \<noteq> None \<and> p2_move (note_move who crd g) \<noteq> None
      then (case resolve_round (note_move who crd g) of
              Inl e \<Rightarrow> Inl e | Inr g3 \<Rightarrow> Inr (True, g3))
      else Inr (True, note_move who crd g))"
  using assms by (simp add: register_move_def Let_def)

lemma register_move_bot_moved:
  assumes "\<not> bw_game_over g" and "p2_is_bot g" and "p1_move (note_move who crd g) = Some m"
  shows "register_move r who crd g =
     (case bot_reply r m (note_move who crd g) of
        Inl e \<Rightarrow> Inl e
      | Inr g2 \<Rightarrow>
          if p1_move g2 \<noteq> None \<and> p2_move g2 \<noteq> None then
            (case resolve_round g2 of Inl e \<Rightarrow> Inl e | Inr g3 \<Rightarrow> Inr (True, g3))
          else Inr (True, g2))"
  using assms by (simp add: register_move_def Let_def)

lemma register_move_bot_idle:
  assumes "\<not> bw_game_over g" and "p2_is_bot g" and "p1_move (note_move who crd g) = None"
  shows "register_move r who crd g = Inr (True, note_move who crd g)"
  using assms by (simp add: register_move_def Let_def)

lemma resolve_round_removes:
  assumes "p1_move s = Some c1" and "p2_move s = Some c2"
  shows "\<exists>s'. resolve_round s = Inr s'
           \<and> p1_hand s' = remove1 c1 (p1_hand s) \<and> p2_hand s' = remove1 c2 (p2_hand s)"
proof -
  from resolve_round_ok [OF assms] obtain s' where rr: "resolve_round s = Inr s'" by blast
  from resolve_round_hands [OF rr assms] rr show ?thesis by blast
qed

text \<open>
  C8. In every state reached from the constructor by \<open>register_move\<close> calls, after a
  further call: no card occurs twice among the cards a participant has played, no played
  card is still in that participant's hand, and every pending move is a card of the
  mover's hand. In a game of two humans, when the call leaves both moves registered the
  round resolves at once: each participant's hand loses exactly the card that
  participant registered, and that pair of cards is the new last entry of the history;
  otherwise hands and history are unchanged and the registered move stays pending. In a
  bot game, a card of her hand registered by the first participant resolves the round
  with the card \<open>decide_move\<close> returns for the bot, which is a card of the bot's hand,
  and each hand loses exactly its card; any other call changes nothing. Once the game is
  over nothing changes. And \<open>resolve_round\<close>, whenever both moves are set, removes
  exactly these two moves from the two hands.
\<close>

theorem hands_lose_played_card:
  assumes "init_bidwiser human_players shuffled = Inr g0"
      and "mset shuffled = mset [1..13]"
      and "run_moves calls g0 = Inr g"
      and "register_move r who crd g = Inr (changed, g')"
  shows "distinct (map p1_card (round_history g'))
       \<and> distinct (map p2_card (round_history g'))
       \<and> set (map p1_card (round_history g')) \<inter> set (p1_hand g') = {}
       \<and> set (map p2_card (round_history g')) \<inter> set (p2_hand g') = {}
       \<and> (\<forall>c. p1_move g' = Some c \<longrightarrow> c \<in> set (p1_hand g'))
       \<and> (\<forall>c. p2_move g' = Some c \<longrightarrow> c \<in> set (p2_hand g'))
       \<and> (bw_game_over g \<longrightarrow> g' = g)
       \<and> (\<not> bw_game_over g \<and> \<not> p2_is_bot g \<longrightarrow>
            (\<forall>c1 c2. registered_p1 who crd g = Some c1 \<and> registered_p2 who crd g = Some c2
                \<longrightarrow> round_resolved g c1 c2 g')
          \<and> (registered_p1 who crd g = None \<or> registered_p2 who crd g = None \<longrightarrow>
                p1_hand g' = p1_hand g \<and> p2_hand g' = p2_hand g
              \<and> round_history g' = round_history g
              \<and> p1_move g' = registered_p1 who crd g
              \<and> p2_move g' = registered_p2 who crd g))
       \<and> (\<not> bw_game_over g \<and> p2_is_bot g \<longrightarrow>
            (\<forall>c1. registered_p1 who crd g = Some c1 \<longrightarrow>
                c1 = crd
              \<and> (\<exists>c2. decide_move r (p2_hand g) (p1_hand g)
                          (current_prize g + carry_over_pot g) (prizes g)
                          (p2_score g) (p1_score g) = Inr c2
                      \<and> round_resolved g c1 c2 g'))
          \<and> (registered_p1 who crd g = None \<longrightarrow> g' = g))
       \<and> (\<forall>s c1 c2. p1_move s = Some c1 \<and> p2_move s = Some c2 \<longrightarrow>
              (\<exists>s'. resolve_round s = Inr s'
                    \<and> p1_hand s' = remove1 c1 (p1_hand s)
                    \<and> p2_hand s' = remove1 c2 (p2_hand s)))"
proof -
  let ?g1 = "note_move who crd g"
  have br: "between_rounds g" using reachable_between_rounds [OF assms(1,2,3)] .
  then have hi: "hands_invariant g" and mi: "moves_in_hand g" and aw: "awaiting_moves g"
    by (simp_all add: between_rounds_def)
  have mi1: "moves_in_hand ?g1" using mi by (rule note_move_moves_in_hand)
  have hi1: "hands_invariant ?g1" using hi by (simp add: note_move_hands_invariant)
  from register_move_invariant [OF br assms(4)]
  have hi': "hands_invariant g'" and mi': "moves_in_hand g'"
    by (simp_all add: between_rounds_def)
  from hi' have first: "distinct (map p1_card (round_history g'))
       \<and> distinct (map p2_card (round_history g'))
       \<and> set (map p1_card (round_history g')) \<inter> set (p1_hand g') = {}
       \<and> set (map p2_card (round_history g')) \<inter> set (p2_hand g') = {}"
    by (simp add: hands_invariant_def)
  from mi' have second: "(\<forall>c. p1_move g' = Some c \<longrightarrow> c \<in> set (p1_hand g'))
       \<and> (\<forall>c. p2_move g' = Some c \<longrightarrow> c \<in> set (p2_hand g'))"
    by (simp add: moves_in_hand_def)
  have over: "g' = g" if "bw_game_over g"
    using that assms(4) by (simp add: register_move_def)
  have human_both: "round_resolved g c1 c2 g'"
    if no: "\<not> bw_game_over g" and hu: "\<not> p2_is_bot g"
      and r1: "registered_p1 who crd g = Some c1" and r2: "registered_p2 who crd g = Some c2"
    for c1 c2
  proof -
    have m: "p1_move ?g1 = Some c1" "p2_move ?g1 = Some c2"
      using r1 r2 by (simp_all add: note_move_p1 note_move_p2)
    from resolve_round_ok [OF m] obtain g3 where rr: "resolve_round ?g1 = Inr g3" by blast
    from assms(4) m rr have "g' = g3"
      by (simp add: register_move_human [OF no hu])
    with rr have rr': "resolve_round ?g1 = Inr g'" by simp
    show ?thesis by (rule round_resolvedI [OF rr' m mi1]) simp_all
  qed
  have human_wait: "p1_hand g' = p1_hand g \<and> p2_hand g' = p2_hand g
              \<and> round_history g' = round_history g
              \<and> p1_move g' = registered_p1 who crd g
              \<and> p2_move g' = registered_p2 who crd g"
    if no: "\<not> bw_game_over g" and hu: "\<not> p2_is_bot g"
      and r: "registered_p1 who crd g = None \<or> registered_p2 who crd g = None"
  proof -
    from r have "\<not> (p1_move ?g1 \<noteq> None \<and> p2_move ?g1 \<noteq> None)"
      by (auto simp: note_move_p1 note_move_p2)
    with assms(4) have "g' = ?g1"
      by (auto simp: register_move_human [OF no hu])
    then show ?thesis by (simp add: note_move_p1 note_move_p2)
  qed
  have bot_moved: "c1 = crd
              \<and> (\<exists>c2. decide_move r (p2_hand g) (p1_hand g)
                          (current_prize g + carry_over_pot g) (prizes g)
                          (p2_score g) (p1_score g) = Inr c2
                      \<and> round_resolved g c1 c2 g')"
    if no: "\<not> bw_game_over g" and bt: "p2_is_bot g"
      and r1: "registered_p1 who crd g = Some c1"
    for c1
  proof -
    from aw bt have none: "p1_move g = None" by (simp add: awaiting_moves_def)
    with r1 have c1: "c1 = crd" by (auto simp: registered_p1_def split: if_splits)
    have m1: "p1_move ?g1 = Some c1" using r1 by (simp add: note_move_p1)
    have no1: "\<not> bw_game_over ?g1" and bt1: "p2_is_bot ?g1" using no bt by simp_all
    from bot_reply_ok [OF hi1 no1 bt1] obtain g2 where b: "bot_reply r c1 ?g1 = Inr g2"
      by blast
    from b obtain c2 bo bo' where
      d: "decide_move r (p2_hand ?g1) (p1_hand ?g1) (current_prize ?g1 + carry_over_pot ?g1)
            (prizes ?g1) (p2_score ?g1) (p1_score ?g1) = Inr c2"
      and g2: "g2 = ?g1\<lparr>p2_move := Some c2, bot := Some bo'\<rparr>"
      by (rule bot_reply_Inr)
    from d have d': "decide_move r (p2_hand g) (p1_hand g)
                          (current_prize g + carry_over_pot g) (prizes g)
                          (p2_score g) (p1_score g) = Inr c2" by simp
    from g2 m1 have m: "p1_move g2 = Some c1" "p2_move g2 = Some c2" by simp_all
    from bot_reply_invariant [OF b hi1 mi1] have mi2: "moves_in_hand g2" by simp
    from resolve_round_ok [OF m] obtain g3 where rr: "resolve_round g2 = Inr g3" by blast
    from assms(4) b m rr have "g' = g3"
      by (simp add: register_move_bot_moved [OF no bt m1])
    with rr have rr': "resolve_round g2 = Inr g'" by simp
    have "round_resolved g c1 c2 g'"
      by (rule round_resolvedI [OF rr' m mi2]) (simp_all add: g2)
    with c1 d' show ?thesis by blast
  qed
  have bot_idle: "g' = g"
    if no: "\<not> bw_game_over g" and bt: "p2_is_bot g"
      and r1: "registered_p1 who crd g = None"
  proof -
    have m1: "p1_move ?g1 = None" using r1 by (simp add: note_move_p1)
    from assms(4) have g': "g' = ?g1"
      by (simp add: register_move_bot_idle [OF no bt m1])
    from r1 have "who \<noteq> p1_name g \<or> crd \<notin> set (p1_hand g)"
      by (auto simp: registered_p1_def split: if_splits)
    with bt have "?g1 = g" by (auto simp: note_move_def)
    with g' show ?thesis by simp
  qed
  have third: "\<forall>s c1 c2. p1_move s = Some c1 \<and> p2_move s = Some c2 \<longrightarrow>
              (\<exists>s'. resolve_round s = Inr s'
                    \<and> p1_hand s' = remove1 c1 (p1_hand s)
                    \<and> p2_hand s' = remove1 c2 (p2_hand s))"
    using resolve_round_removes by blast
  have O: "bw_game_over g \<longrightarrow> g' = g" using over by blast
  have H: "\<not> bw_game_over g \<and> \<not> p2_is_bot g \<longrightarrow>
            (\<forall>c1 c2. registered_p1 who crd g = Some c1 \<and> registered_p2 who crd g = Some c2
                \<longrightarrow> round_resolved g c1 c2 g')
          \<and> (registered_p1 who crd g = None \<or> registered_p2 who crd g = None \<longrightarrow>
                p1_hand g' = p1_hand g \<and> p2_hand g' = p2_hand g
              \<and> round_history g' = round_history g
              \<and> p1_move g' = registered_p1 who crd g
              \<and> p2_move g' = registered_p2 who crd g)"
    using human_both human_wait by blast
  have B: "\<not> bw_game_over g \<and> p2_is_bot g \<longrightarrow>
            (\<forall>c1. registered_p1 who crd g = Some c1 \<longrightarrow>
                c1 = crd
              \<and> (\<exists>c2. decide_move r (p2_hand g) (p1_hand g)
                          (current_prize g + carry_over_pot g) (prizes g)
                          (p2_score g) (p1_score g) = Inr c2
                      \<and> round_resolved g c1 c2 g'))
          \<and> (registered_p1 who crd g = None \<longrightarrow> g' = g)"
    using bot_moved bot_idle by blast
  show ?thesis
    apply (intro conjI)
             apply (rule first [THEN conjunct1])
            apply (rule first [THEN conjunct2, THEN conjunct1])
           apply (rule first [THEN conjunct2, THEN conjunct2, THEN conjunct1])
          apply (rule first [THEN conjunct2, THEN conjunct2, THEN conjunct2])
         apply (rule second [THEN conjunct1])
        apply (rule second [THEN conjunct2])
       apply (rule O)
      apply (rule H)
     apply (rule B)
    apply (rule third)
    done
qed

section \<open>BidWiser: a game against the bot, evaluated\<close>

lemma example_bot_init: "init_bidwiser [''Ann''] [1..13] = Inr example_bot_start"
  by code_simp

lemma example_bot_run:
  "run_moves (map (\<lambda>k. (example_rand, ''Ann'', k)) [1..12]) example_bot_start
     = Inr example_bot_round12"
  by code_simp

lemma example_bot_last:
  "register_move example_rand ''Ann'' 13 example_bot_round12 = Inr (True, example_bot_final)"
  by code_simp

lemma run_moves_snoc:
  assumes "run_moves calls g0 = Inr g" and "register_move r who crd g = Inr (changed, g')"
  shows "run_moves (calls @ [(r, who, crd)]) g0 = Inr g'"
  using assms
proof (induction calls arbitrary: g0)
  case Nil
  then show ?case by simp
next
  case (Cons call calls)
  obtain r0 who0 crd0 where call: "call = (r0, who0, crd0)" by (cases call)
  with Cons.prems(1) obtain ch g1 where
    s: "register_move r0 who0 crd0 g0 = Inr (ch, g1)" and n: "run_moves calls g1 = Inr g"
    by (auto split: sum.splits prod.splits)
  from Cons.IH [OF n Cons.prems(2)] s call show ?case by simp
qed

theorem register_move_return_value_witness:
  "init_bidwiser [''Ann'', ''Bob''] [1..13] = Inr example_bid_start
   \<and> run_moves [(example_rand, ''Ann'', 5)] example_bid_start = Inr example_bid_waiting
   \<and> \<not> bw_game_over example_bid_waiting
   \<and> ''Zed'' \<noteq> p1_name example_bid_waiting \<and> ''Zed'' \<noteq> p2_name example_bid_waiting
   \<and> register_move example_rand ''Zed'' 3 example_bid_waiting = Inr (True, example_bid_waiting)
   \<and> 14 \<notin> set (p2_hand example_bid_waiting)
   \<and> register_move example_rand ''Bob'' 14 example_bid_waiting = Inr (True, example_bid_waiting)
   \<and> register_move example_rand ''Bob'' 9 example_bid_waiting = Inr (True, example_bid_round1)
   \<and> init_bidwiser [''Ann''] [1..13] = Inr example_bot_start
   \<and> run_moves (map (\<lambda>k. (example_rand, ''Ann'', k)) [1..12] @ [(example_rand, ''Ann'', 13)])
         example_bot_start = Inr example_bot_final
   \<and> bw_game_over example_bot_final
   \<and> register_move example_rand ''Ann'' 13 example_bot_final = Inr (False, example_bot_final)"
proof -
  have p: "mset [1..13] = mset [1..13 :: int]" by simp
  have f: "\<not> bw_game_over example_bid_waiting"
    "''Zed'' \<noteq> p1_name example_bid_waiting" "''Zed'' \<noteq> p2_name example_bid_waiting"
    "''Bob'' \<noteq> p1_name example_bid_waiting" "''Bob'' = p2_name example_bid_waiting"
    "14 \<notin> set (p2_hand example_bid_waiting)"
    by (simp_all add: example_bid_waiting_def example_bid_start_def)
  from register_move_return_value [OF example_bid_init p example_bid_run,
      of example_rand "''Zed''" 3] f
  have a: "register_move example_rand ''Zed'' 3 example_bid_waiting = Inr (True, example_bid_waiting)"
    by blast
  from register_move_return_value [OF example_bid_init p example_bid_run,
      of example_rand "''Bob''" 14] f
  have b: "register_move example_rand ''Bob'' 14 example_bid_waiting = Inr (True, example_bid_waiting)"
    by blast
  have run: "run_moves (map (\<lambda>k. (example_rand, ''Ann'', k)) [1..12] @ [(example_rand, ''Ann'', 13)])
         example_bot_start = Inr example_bot_final"
    using example_bot_run example_bot_last by (rule run_moves_snoc)
  have over: "bw_game_over example_bot_final" by (simp add: example_bot_final_def)
  from register_move_return_value [OF example_bot_init p run, of example_rand "''Ann''" 13] over
  have c: "register_move example_rand ''Ann'' 13 example_bot_final = Inr (False, example_bot_final)"
    by blast
  from example_bid_init example_bid_run f a b example_bid_resolve example_bot_init run over c
  show ?thesis by blast
qed

section \<open>SmartBot: the endgame search\<close>

lemma endgame_reached:
  "play_game [''Ann''] endgame_shuffle endgame_calls = Inr endgame_state"
  by code_simp

lemma endgame_code_options: "best_options [4, 10] [1, 5] 7 [12] 37 35 = [10]"
  by code_simp

lemma endgame_full_depth:
  "full_depth_options [4, 10] [1, 5] 7 [12] 37 35 = [4]"
  "full_depth_worst [4, 10] [1, 5] 7 [12] 37 35 10 = - 3"
  "full_depth_worst [4, 10] [1, 5] 7 [12] 37 35 4 = 7"
  by code_simp+

lemma endgame_played_out:
  "map_sum id (\<lambda>g. (p2_score g, p1_score g, bw_game_over g))
     (run_moves [(example_rand, ''Ann'', 1), (example_rand, ''Ann'', 5)] endgame_state)
   = Inr (44, 47, True)"
  by code_simp

text \<open>
  C3, the code at a failing input that a game reaches. After eleven rounds of the game
  above the bot holds 4 and 10 against Ann's 1 and 5, the prize is 7, the prize 12 is
  still to come and the score is 37 to 35 for the bot. The hand has at most 4 cards, so
  \<open>decide_move\<close> runs \<open>minimax_move\<close>; whatever the random draws, it returns 10, the
  card its one-round rating prefers. The search to the end of the game returns 4: with 4
  the bot is sure of winning by 7, with 10 it can lose by 3. Played out (Ann answers 1,
  then 5), the bot loses 44 to 47.
\<close>

theorem minimax_move_is_single_ply:
  "mset endgame_shuffle = mset [1..13]
   \<and> play_game [''Ann''] endgame_shuffle endgame_calls = Inr endgame_state
   \<and> p2_hand endgame_state = [4, 10] \<and> p1_hand endgame_state = [1, 5]
   \<and> current_prize endgame_state + carry_over_pot endgame_state = 7
   \<and> prizes endgame_state = [12]
   \<and> p2_score endgame_state = 37 \<and> p1_score endgame_state = 35
   \<and> length (p2_hand endgame_state) \<le> 4
   \<and> best_options [4, 10] [1, 5] 7 [12] 37 35 = [10]
   \<and> (\<forall>r. decide_move r [4, 10] [1, 5] 7 [12] 37 35 = Inr 10)
   \<and> full_depth_options [4, 10] [1, 5] 7 [12] 37 35 = [4]
   \<and> full_depth_worst [4, 10] [1, 5] 7 [12] 37 35 10 = - 3
   \<and> full_depth_worst [4, 10] [1, 5] 7 [12] 37 35 4 = 7
   \<and> map_sum id (\<lambda>g. (p2_score g, p1_score g, bw_game_over g))
        (run_moves [(example_rand, ''Ann'', 1), (example_rand, ''Ann'', 5)] endgame_state)
      = Inr (44, 47, True)"
proof -
  have perm: "mset endgame_shuffle = mset [1..13]"
    by (simp add: endgame_shuffle_def upto.simps)
  have fields: "p2_hand endgame_state = [4, 10]" "p1_hand endgame_state = [1, 5]"
    "current_prize endgame_state + carry_over_pot endgame_state = 7"
    "prizes endgame_state = [12]"
    "p2_score endgame_state = 37" "p1_score endgame_state = 35"
    "length (p2_hand endgame_state) \<le> 4"
    by (simp_all add: endgame_state_def)
  have choice: "\<forall>r. decide_move r [4, 10] [1, 5] 7 [12] 37 35 = Inr 10"
    by (simp add: decide_move_def minimax_move_def endgame_code_options)
  from perm endgame_reached fields endgame_code_options choice endgame_full_depth
    endgame_played_out
  show ?thesis by simp
qed

section \<open>BidWiser: the hands in the evaluated games\<close>

lemma example_bot_last_reply: "decide_move example_rand [11] [13] 13 [] 28 50 = Inr 11"
  by code_simp

theorem hands_lose_played_card_witness:
  "init_bidwiser [''Ann'', ''Bob''] [1..13] = Inr example_bid_start
   \<and> run_moves [(example_rand, ''Ann'', 5)] example_bid_start = Inr example_bid_waiting
   \<and> register_move example_rand ''Bob'' 9 example_bid_waiting = Inr (True, example_bid_round1)
   \<and> registered_p1 ''Bob'' 9 example_bid_waiting = Some 5
   \<and> registered_p2 ''Bob'' 9 example_bid_waiting = Some 9
   \<and> round_resolved example_bid_waiting 5 9 example_bid_round1
   \<and> p1_hand example_bid_round1 = [1, 2, 3, 4, 6, 7, 8, 9, 10, 11, 12, 13]
   \<and> p2_hand example_bid_round1 = [1, 2, 3, 4, 5, 6, 7, 8, 10, 11, 12, 13]
   \<and> init_bidwiser [''Ann''] [1..13] = Inr example_bot_start
   \<and> run_moves (map (\<lambda>k. (example_rand, ''Ann'', k)) [1..12]) example_bot_start
       = Inr example_bot_round12
   \<and> register_move example_rand ''Ann'' 13 example_bot_round12 = Inr (True, example_bot_final)
   \<and> registered_p1 ''Ann'' 13 example_bot_round12 = Some 13
   \<and> decide_move example_rand (p2_hand example_bot_round12) (p1_hand example_bot_round12)
         (current_prize example_bot_round12 + carry_over_pot example_bot_round12)
         (prizes example_bot_round12) (p2_score example_bot_round12)
         (p1_score example_bot_round12) = Inr 11
   \<and> round_resolved example_bot_round12 13 11 example_bot_final
   \<and> p1_hand example_bot_round12 = [13] \<and> p2_hand example_bot_round12 = [11]
   \<and> p1_hand example_bot_final = [] \<and> p2_hand example_bot_final = []
   \<and> map p1_card (round_history example_bot_final) = [1, 2, 3, 4, 5, 6, 7, 8, 9, 10, 11, 12, 13]
   \<and> map p2_card (round_history example_bot_final) = [1, 4, 5, 6, 7, 13, 12, 2, 3, 8, 9, 10, 11]
   \<and> distinct (map p1_card (round_history example_bot_final))
   \<and> distinct (map p2_card (round_history example_bot_final))"
proof -
  have p: "mset [1..13] = mset [1..13 :: int]" by simp
  have human: "\<not> bw_game_over example_bid_waiting" "\<not> p2_is_bot example_bid_waiting"
    "registered_p1 ''Bob'' 9 example_bid_waiting = Some 5"
    "registered_p2 ''Bob'' 9 example_bid_waiting = Some 9"
    "p1_hand example_bid_round1 = [1, 2, 3, 4, 6, 7, 8, 9, 10, 11, 12, 13]"
    "p2_hand example_bid_round1 = [1, 2, 3, 4, 5, 6, 7, 8, 10, 11, 12, 13]"
    by (simp_all add: registered_p1_def registered_p2_def example_bid_waiting_def
        example_bid_start_def example_bid_round1_def)
  note u = hands_lose_played_card [OF example_bid_init p example_bid_run example_bid_resolve]
  note u_human = u [THEN conjunct2, THEN conjunct2, THEN conjunct2, THEN conjunct2,
      THEN conjunct2, THEN conjunct2, THEN conjunct2, THEN conjunct1]
  from u_human human(1-4)
  have h: "round_resolved example_bid_waiting 5 9 example_bid_round1" by blast
  have bot: "\<not> bw_game_over example_bot_round12" "p2_is_bot example_bot_round12"
    "registered_p1 ''Ann'' 13 example_bot_round12 = Some 13"
    "p1_hand example_bot_round12 = [13]" "p2_hand example_bot_round12 = [11]"
    "p1_hand example_bot_final = []" "p2_hand example_bot_final = []"
    "map p1_card (round_history example_bot_final) = [1, 2, 3, 4, 5, 6, 7, 8, 9, 10, 11, 12, 13]"
    "map p2_card (round_history example_bot_final) = [1, 4, 5, 6, 7, 13, 12, 2, 3, 8, 9, 10, 11]"
    by (simp_all add: registered_p1_def example_bot_round12_def example_bot_final_def)
  have d: "decide_move example_rand (p2_hand example_bot_round12) (p1_hand example_bot_round12)
         (current_prize example_bot_round12 + carry_over_pot example_bot_round12)
         (prizes example_bot_round12) (p2_score example_bot_round12)
         (p1_score example_bot_round12) = Inr 11"
    using example_bot_last_reply by (simp add: example_bot_round12_def)
  note t = hands_lose_played_card [OF example_bot_init p example_bot_run example_bot_last]
  note t_bot = t [THEN conjunct2, THEN conjunct2, THEN conjunct2, THEN conjunct2,
      THEN conjunct2, THEN conjunct2, THEN conjunct2, THEN conjunct2, THEN conjunct1]
  from t_bot bot(1,2,3) obtain c2 where
    c2: "decide_move example_rand (p2_hand example_bot_round12) (p1_hand example_bot_round12)
         (current_prize example_bot_round12 + carry_over_pot example_bot_round12)
         (prizes example_bot_round12) (p2_score example_bot_round12)
         (p1_score example_bot_round12) = Inr c2"
    and rr: "round_resolved example_bot_round12 13 c2 example_bot_final"
    by blast
  from c2 d have "c2 = 11" by simp
  with rr have b: "round_resolved example_bot_round12 13 11 example_bot_final" by simp
  note dist = t [THEN conjunct1] t [THEN conjunct2, THEN conjunct1]
  show ?thesis
    apply (intro conjI)
    apply (rule example_bid_init example_bid_run example_bid_resolve human(3-6) h
        example_bot_init example_bot_run example_bot_last bot(3-9) d b dist)+
    done
qed

end
